theory Spec2Isabelle
  imports Main
begin

section \<open>Node contraction of the contraction-hierarchy preprocessing (graph\_contractor.hpp)\<close>

text \<open>
  A shallow embedding of \<^verbatim>\<open>GraphContractor::ContractNode\<close> and of
  \<^verbatim>\<open>ThreadDataContainer::GetThreadData\<close>. The header includes
  \<^verbatim>\<open>contractor_graph.hpp\<close>, \<^verbatim>\<open>contractor_dijkstra.hpp\<close> and
  \<^verbatim>\<open>util/typedefs.hpp\<close>, which are not at hand; what \<^verbatim>\<open>ContractNode\<close>
  uses of them is modelled below, each place marked.
\<close>

subsection \<open>Data model\<close>

type_synonym NodeID = nat

text \<open>
  \<^verbatim>\<open>EdgeWeight\<close> is a signed integer type. Sums of weights are taken in \<open>int\<close>:
  signed overflow is undefined in C++ and has no counterpart here.
\<close>

type_synonym EdgeWeight = int

text \<open>
  Modelled from the spec: \<^verbatim>\<open>INVALID_EDGE_WEIGHT\<close> (util/typedefs.hpp) is the weight
  "infinity" with which a search target is pre-marked as not yet found; the largest
  32-bit signed value.
\<close>

definition INVALID_EDGE_WEIGHT :: EdgeWeight where
  "INVALID_EDGE_WEIGHT = 2147483647"

text \<open>
  Modelled from the spec: the edge payload of contractor\_graph.hpp. The fields
  \<open>weight\<close>, \<open>duration\<close>, \<open>originalEdges\<close>, \<open>shortcut\<close>, \<open>forward\<close> and
  \<open>backward\<close> are the ones \<^verbatim>\<open>ContractNode\<close> reads; \<open>via\<close> is the contracted node
  a shortcut passes through (sixth argument of \<^verbatim>\<open>emplace_back\<close>).
\<close>

record ContractorEdgeData =
  weight :: EdgeWeight
  duration :: EdgeWeight
  originalEdges :: nat
  via :: NodeID
  shortcut :: bool
  forward :: bool
  backward :: bool

record ContractorEdge =
  source :: NodeID
  target :: NodeID
  data :: ContractorEdgeData

text \<open>
  Modelled from the spec: the constructor that \<^verbatim>\<open>inserted_edges.emplace_back\<close> calls
  with (source, target, weight, duration, original edges, via node, shortcut, forward,
  backward); it stores its arguments.
\<close>

definition emplace_edge ::
  "NodeID \<Rightarrow> NodeID \<Rightarrow> EdgeWeight \<Rightarrow> EdgeWeight \<Rightarrow> nat \<Rightarrow> NodeID \<Rightarrow> bool \<Rightarrow> bool \<Rightarrow> bool
     \<Rightarrow> ContractorEdge" where
  "emplace_edge s t w d oe v sc fw bw =
     \<lparr>source = s, target = t,
      data = \<lparr>weight = w, duration = d, originalEdges = oe, via = v,
              shortcut = sc, forward = fw, backward = bw\<rparr>\<rparr>"

text \<open>
  Modelled from the spec: the graph store of contractor\_graph.hpp, an adjacency
  structure over node ids. An edge stored at a node is the pair of its other
  endpoint and its payload; the graph gives each node the list of its edges.
\<close>

type_synonym GraphEdge = "NodeID \<times> ContractorEdgeData"
type_synonym ContractorGraph = "NodeID \<Rightarrow> GraphEdge list"

text \<open>
  Modelled from the spec: \<^verbatim>\<open>graph.GetAdjacentEdgeRange(node)\<close>, the edges stored at
  the node, in their order.
\<close>

definition GetAdjacentEdgeRange :: "ContractorGraph \<Rightarrow> NodeID \<Rightarrow> GraphEdge list" where
  "GetAdjacentEdgeRange g node = g node"

text \<open>Modelled from the spec: \<^verbatim>\<open>graph.GetTarget(edge)\<close>, the other endpoint.\<close>

definition GetTarget :: "GraphEdge \<Rightarrow> NodeID" where
  "GetTarget e = fst e"

text \<open>Modelled from the spec: \<^verbatim>\<open>graph.GetEdgeData(edge)\<close>, the payload.\<close>

definition GetEdgeData :: "GraphEdge \<Rightarrow> ContractorEdgeData" where
  "GetEdgeData e = snd e"

record ContractionStats =
  edges_deleted_count :: int
  edges_added_count :: int
  original_edges_deleted_count :: int
  original_edges_added_count :: int

definition ContractionStats_init :: ContractionStats where
  "ContractionStats_init =
     \<lparr>edges_deleted_count = 0, edges_added_count = 0,
      original_edges_deleted_count = 0, original_edges_added_count = 0\<rparr>"

subsection \<open>The witness search as seen from ContractNode\<close>

text \<open>
  Modelled from the spec: the per-thread search object of contractor\_dijkstra.hpp.
  It is built for a number of nodes and keeps the nodes inserted so far, each with
  its key (the distance) and its data; a target is inserted with the flag
  \<open>is_target\<close> set (\<^verbatim>\<open>ContractorHeapData{0, true}\<close>), the source with the default
  data (\<^verbatim>\<open>ContractorHeapData{}\<close>).
\<close>

record ContractorHeapData =
  hop :: nat
  is_target :: bool

record HeapNode =
  heap_node :: NodeID
  heap_key :: EdgeWeight
  heap_data :: ContractorHeapData

record ContractorDijkstra =
  capacity :: nat
  heap :: "HeapNode list"

text \<open>
  Modelled from the spec: the constructor \<^verbatim>\<open>ContractorDijkstra(nodes)\<close>; nothing is
  inserted yet.
\<close>

definition ContractorDijkstra_init :: "nat \<Rightarrow> ContractorDijkstra" where
  "ContractorDijkstra_init nodes = \<lparr>capacity = nodes, heap = []\<rparr>"

text \<open>Modelled from the spec: \<^verbatim>\<open>dijkstra.Clear()\<close> forgets every inserted node.\<close>

definition Clear :: "ContractorDijkstra \<Rightarrow> ContractorDijkstra" where
  "Clear d = d\<lparr>heap := []\<rparr>"

text \<open>
  Modelled from the spec: \<^verbatim>\<open>dijkstra.Insert(node, weight, data)\<close> adds the node with
  this key and this data.
\<close>

definition Insert ::
  "NodeID \<Rightarrow> EdgeWeight \<Rightarrow> ContractorHeapData \<Rightarrow> ContractorDijkstra \<Rightarrow> ContractorDijkstra" where
  "Insert n w hdata d =
     d\<lparr>heap := heap d @ [\<lparr>heap_node = n, heap_key = w, heap_data = hdata\<rparr>]\<rparr>"

text \<open>
  Modelled from the spec: \<^verbatim>\<open>dijkstra.WasInserted(node)\<close>, whether the node was
  inserted since the last \<^verbatim>\<open>Clear\<close>.
\<close>

definition WasInserted :: "ContractorDijkstra \<Rightarrow> NodeID \<Rightarrow> bool" where
  "WasInserted d n = (n \<in> set (map heap_node (heap d)))"

text \<open>
  Modelled from the spec: \<^verbatim>\<open>dijkstra.GetKey(node)\<close>, the key lookup by which the
  caller reads a distance back. For a node that was never inserted there is no
  key to read: the value is \<open>None\<close>, and the caller stops with an error.
\<close>

definition GetKey :: "ContractorDijkstra \<Rightarrow> NodeID \<Rightarrow> EdgeWeight option" where
  "GetKey d n = map_option heap_key (find (\<lambda>h. heap_node h = n) (heap d))"

text \<open>
  \<^verbatim>\<open>dijkstra.Run(number_of_targets, node_limit, weight_limit, forbidden_node, graph)\<close>
  is not part of this header. \<^verbatim>\<open>ContractNode\<close> is modelled for any search: the
  search is a parameter of this type, from the five arguments and the search object
  before the call to the search object after it.
\<close>

type_synonym search =
  "nat \<Rightarrow> int \<Rightarrow> EdgeWeight \<Rightarrow> NodeID \<Rightarrow> ContractorGraph \<Rightarrow> ContractorDijkstra \<Rightarrow> ContractorDijkstra"

text \<open>
  A log entry for one call of \<^verbatim>\<open>dijkstra.Run\<close>: its first four arguments and the
  search object it was called on. The log is written, never read, by the model;
  it makes "the search was invoked with ..." a statement about the result.
\<close>

record search_call =
  number_of_targets :: nat
  node_limit :: int
  weight_limit :: EdgeWeight
  forbidden_node :: NodeID
  called_on :: ContractorDijkstra

subsection \<open>Thread data and the state ContractNode works on\<close>

text \<open>\<^verbatim>\<open>struct ContractorThreadData\<close> and its constructor.\<close>

record ContractorThreadData =
  dijkstra :: ContractorDijkstra
  inserted_edges :: "ContractorEdge list"
  neighbours :: "NodeID list"

definition ContractorThreadData_init :: "nat \<Rightarrow> ContractorThreadData" where
  "ContractorThreadData_init nodes =
     \<lparr>dijkstra = ContractorDijkstra_init nodes, inserted_edges = [], neighbours = []\<rparr>"

text \<open>
  Everything \<^verbatim>\<open>ContractNode\<close> can reach: the thread data behind \<^verbatim>\<open>data\<close>, the
  statistics behind \<^verbatim>\<open>stats\<close> (\<open>None\<close> for \<^verbatim>\<open>nullptr\<close>), the members \<^verbatim>\<open>graph\<close>
  and \<^verbatim>\<open>node_weights\<close> of the contractor, and the log of searches.
\<close>

record contractor_state =
  thread_data :: ContractorThreadData
  stats :: "ContractionStats option"
  graph :: ContractorGraph
  node_weights :: "EdgeWeight list"
  searches :: "search_call list"

text \<open>
  The ways in which a call does not return a result. Assertions are taken as
  enabled.
  \<open>AssertionFailed\<close>: a \<^verbatim>\<open>BOOST_ASSERT(stats != nullptr)\<close> that does not hold.
  \<open>OutOfRange\<close>: \<^verbatim>\<open>node_weights[i]\<close> with \<open>i\<close> beyond the vector.
  \<open>NotInserted\<close>: \<^verbatim>\<open>GetKey\<close> of a node the search object does not hold.
  The last two are undefined behaviour in the source.
\<close>

datatype error = AssertionFailed | OutOfRange | NotInserted

text \<open>A range-based \<^verbatim>\<open>for\<close> whose body may fail: it stops at the first error.\<close>

fun for_each :: "('a \<Rightarrow> 's \<Rightarrow> error + 's) \<Rightarrow> 'a list \<Rightarrow> 's \<Rightarrow> error + 's" where
  "for_each body [] s = Inr s"
| "for_each body (x # xs) s =
     (case body x s of Inl e \<Rightarrow> Inl e | Inr s' \<Rightarrow> for_each body xs s')"

subsection \<open>ContractNode\<close>

text \<open>
  The two \<^verbatim>\<open>emplace_back\<close> calls that record a shortcut; the source has the same
  two calls in the loop branch and after the search.
\<close>

definition insert_shortcuts ::
  "NodeID \<Rightarrow> NodeID \<Rightarrow> NodeID \<Rightarrow> ContractorEdgeData \<Rightarrow> ContractorEdgeData
     \<Rightarrow> ContractorEdge list \<Rightarrow> ContractorEdge list" where
  "insert_shortcuts node src tgt in_data out_data edges =
     (let path_weight = weight in_data + weight out_data in
      edges @
      [emplace_edge src tgt path_weight (duration in_data + duration out_data)
         (originalEdges out_data + originalEdges in_data) node True True False,
       emplace_edge tgt src path_weight (duration in_data + duration out_data)
         (originalEdges out_data + originalEdges in_data) node True False True])"

text \<open>
  The statistics update of a recorded shortcut in simulation mode, behind its
  \<^verbatim>\<open>BOOST_ASSERT(stats != nullptr)\<close>.
\<close>

definition count_shortcuts ::
  "ContractorEdgeData \<Rightarrow> ContractorEdgeData \<Rightarrow> contractor_state \<Rightarrow> error + contractor_state" where
  "count_shortcuts in_data out_data st =
     (case stats st of
        None \<Rightarrow> Inl AssertionFailed
      | Some s \<Rightarrow>
          Inr (st\<lparr>stats := Some (s\<lparr>edges_added_count := edges_added_count s + 2,
                 original_edges_added_count := original_edges_added_count s +
                   2 * (int (originalEdges out_data) + int (originalEdges in_data))\<rparr>)\<rparr>))"

text \<open>
  Body of the first loop over the outgoing edges (lines 156 to 224). The loop
  carries \<^verbatim>\<open>max_weight\<close> and \<^verbatim>\<open>number_of_targets\<close> with the state.
\<close>

definition first_scan_step ::
  "bool \<Rightarrow> NodeID \<Rightarrow> NodeID \<Rightarrow> ContractorEdgeData \<Rightarrow> GraphEdge
     \<Rightarrow> contractor_state \<times> EdgeWeight \<times> nat \<Rightarrow> error + (contractor_state \<times> EdgeWeight \<times> nat)" where
  "first_scan_step RUNSIMULATION node src in_data out_edge s =
     (case s of (st, max_weight, n_targets) \<Rightarrow>
      let out_data = GetEdgeData out_edge in
      if \<not> forward out_data then Inr s
      else
        let tgt = GetTarget out_edge in
        if node = tgt then Inr s
        else
          let path_weight = weight in_data + weight out_data in
          if tgt = src then
            (if \<not> node < length (node_weights st) then Inl OutOfRange
             else if path_weight < node_weights st ! node then
               (if \<not> src < length (node_weights st) then Inl OutOfRange
                else if RUNSIMULATION then
                  (case count_shortcuts in_data out_data
                          (st\<lparr>node_weights := (node_weights st)[src := path_weight + 1]\<rparr>) of
                     Inl e \<Rightarrow> Inl e
                   | Inr st' \<Rightarrow> Inr (st', max_weight, n_targets))
                else
                  Inr (st\<lparr>node_weights := (node_weights st)[src := path_weight],
                          thread_data := (thread_data st)\<lparr>inserted_edges :=
                            insert_shortcuts node src tgt in_data out_data
                              (inserted_edges (thread_data st))\<rparr>\<rparr>,
                       max_weight, n_targets))
             else Inr s)
          else
            (if \<not> WasInserted (dijkstra (thread_data st)) tgt then
               Inr (st\<lparr>thread_data := (thread_data st)\<lparr>dijkstra :=
                         Insert tgt INVALID_EDGE_WEIGHT \<lparr>hop = 0, is_target = True\<rparr>
                           (dijkstra (thread_data st))\<rparr>\<rparr>,
                    max max_weight path_weight, n_targets + 1)
             else Inr (st, max max_weight path_weight, n_targets)))"

text \<open>Body of the second loop over the outgoing edges (lines 237 to 282).\<close>

definition second_scan_step ::
  "bool \<Rightarrow> NodeID \<Rightarrow> NodeID \<Rightarrow> ContractorEdgeData \<Rightarrow> GraphEdge
     \<Rightarrow> contractor_state \<Rightarrow> error + contractor_state" where
  "second_scan_step RUNSIMULATION node src in_data out_edge st =
     (let out_data = GetEdgeData out_edge in
      if \<not> forward out_data then Inr st
      else
        let tgt = GetTarget out_edge in
        if tgt = node then Inr st
        else
          let path_weight = weight in_data + weight out_data in
          case GetKey (dijkstra (thread_data st)) tgt of
            None \<Rightarrow> Inl NotInserted
          | Some w \<Rightarrow>
              if path_weight < w then
                (if RUNSIMULATION then count_shortcuts in_data out_data st
                 else Inr (st\<lparr>thread_data := (thread_data st)\<lparr>inserted_edges :=
                             insert_shortcuts node src tgt in_data out_data
                               (inserted_edges (thread_data st))\<rparr>\<rparr>))
              else Inr st)"

definition SIMULATION_SEARCH_SPACE_SIZE :: int where
  "SIMULATION_SEARCH_SPACE_SIZE = 1000"

definition FULL_SEARCH_SPACE_SIZE :: int where
  "FULL_SEARCH_SPACE_SIZE = 2000"

text \<open>\<^verbatim>\<open>dijkstra.Run(...)\<close> on the thread's search object, logged.\<close>

definition run_search ::
  "search \<Rightarrow> nat \<Rightarrow> int \<Rightarrow> EdgeWeight \<Rightarrow> NodeID \<Rightarrow> contractor_state \<Rightarrow> contractor_state" where
  "run_search Run n_targets limit max_weight node st =
     st\<lparr>thread_data := (thread_data st)\<lparr>dijkstra :=
           Run n_targets limit max_weight node (graph st) (dijkstra (thread_data st))\<rparr>,
        searches := searches st @
          [\<lparr>number_of_targets = n_targets, node_limit = limit, weight_limit = max_weight,
            forbidden_node = node, called_on = dijkstra (thread_data st)\<rparr>]\<rparr>"

text \<open>
  The deletion statistics of one adjacent edge (lines 140 to 145): only in
  simulation mode, behind \<^verbatim>\<open>BOOST_ASSERT(stats != nullptr)\<close>.
\<close>

definition count_deleted ::
  "bool \<Rightarrow> ContractorEdgeData \<Rightarrow> contractor_state \<Rightarrow> error + contractor_state" where
  "count_deleted RUNSIMULATION in_data st =
     (if RUNSIMULATION then
        (case stats st of
           None \<Rightarrow> Inl AssertionFailed
         | Some s \<Rightarrow>
             Inr (st\<lparr>stats := Some (s\<lparr>edges_deleted_count := edges_deleted_count s + 1,
                    original_edges_deleted_count :=
                      original_edges_deleted_count s + int (originalEdges in_data)\<rparr>)\<rparr>))
      else Inr st)"

text \<open>\<^verbatim>\<open>dijkstra.Clear(); dijkstra.Insert(source, 0, ContractorHeapData{});\<close>\<close>

definition start_search :: "NodeID \<Rightarrow> contractor_state \<Rightarrow> contractor_state" where
  "start_search src st =
     st\<lparr>thread_data := (thread_data st)\<lparr>dijkstra :=
          Insert src 0 \<lparr>hop = 0, is_target = False\<rparr> (Clear (dijkstra (thread_data st)))\<rparr>\<rparr>"

text \<open>Body of the loop over the incoming edges (lines 133 to 283).\<close>

definition in_edge_step ::
  "search \<Rightarrow> bool \<Rightarrow> NodeID \<Rightarrow> GraphEdge \<Rightarrow> contractor_state \<Rightarrow> error + contractor_state" where
  "in_edge_step Run RUNSIMULATION node in_edge st =
     (let in_data = GetEdgeData in_edge;
          src = GetTarget in_edge in
      if src = node then Inr st
      else
        case count_deleted RUNSIMULATION in_data st of
          Inl e \<Rightarrow> Inl e
        | Inr st1 \<Rightarrow>
            if \<not> backward in_data then Inr st1
            else
              let st2 = start_search src st1 in
              case for_each (first_scan_step RUNSIMULATION node src in_data)
                     (GetAdjacentEdgeRange (graph st2) node) (st2, 0, 0) of
                Inl e \<Rightarrow> Inl e
              | Inr (st3, max_weight, n_targets) \<Rightarrow>
                  let st4 =
                    (if RUNSIMULATION
                     then run_search Run n_targets SIMULATION_SEARCH_SPACE_SIZE max_weight node st3
                     else run_search Run n_targets FULL_SEARCH_SPACE_SIZE max_weight node st3) in
                  for_each (second_scan_step RUNSIMULATION node src in_data)
                    (GetAdjacentEdgeRange (graph st4) node) st4)"

text \<open>
  The pass over the edges appended by this call (lines 286 to 321). The inner loop
  looks for a later record with the same source, target, weight and shortcut flag;
  it merges the flags of record \<open>i\<close> into the first one it finds.
\<close>

function merge_into_later ::
  "ContractorEdge list \<Rightarrow> nat \<Rightarrow> nat \<Rightarrow> nat \<Rightarrow> ContractorEdge list \<times> bool" where
  "merge_into_later edges i other iend =
     (if other < iend then
        if source (edges ! other) \<noteq> source (edges ! i)
          then merge_into_later edges i (other + 1) iend
        else if target (edges ! other) \<noteq> target (edges ! i)
          then merge_into_later edges i (other + 1) iend
        else if weight (data (edges ! other)) \<noteq> weight (data (edges ! i))
          then merge_into_later edges i (other + 1) iend
        else if shortcut (data (edges ! other)) \<noteq> shortcut (data (edges ! i))
          then merge_into_later edges i (other + 1) iend
        else
          (edges[other := (edges ! other)\<lparr>data := (data (edges ! other))
             \<lparr>forward := forward (data (edges ! other)) \<or> forward (data (edges ! i)),
              backward := backward (data (edges ! other)) \<or> backward (data (edges ! i))\<rparr>\<rparr>],
           True)
      else (edges, False))"
  by pat_completeness auto
termination
  by (relation "measure (\<lambda>(edges, i, other, iend). iend - other)") auto

function dedup_loop ::
  "ContractorEdge list \<Rightarrow> nat \<Rightarrow> nat \<Rightarrow> nat \<Rightarrow> ContractorEdge list \<times> nat" where
  "dedup_loop edges inserted_edges_size i iend =
     (if i < iend then
        (case merge_into_later edges i (i + 1) iend of
           (edges', found) \<Rightarrow>
             if \<not> found
             then dedup_loop (edges'[inserted_edges_size := edges' ! i])
                    (inserted_edges_size + 1) (i + 1) iend
             else dedup_loop edges' inserted_edges_size (i + 1) iend)
      else (edges, inserted_edges_size))"
  by pat_completeness auto
termination
  by (relation "measure (\<lambda>(edges, sz, i, iend). iend - i)") auto

text \<open>
  \<^verbatim>\<open>ContractNode<RUNSIMULATION>(data, node, stats)\<close>. It returns \<^verbatim>\<open>true\<close>.
  \<^verbatim>\<open>resize\<close> is called with a size that is at most the length, so it is \<open>take\<close>.
\<close>

definition ContractNode ::
  "search \<Rightarrow> bool \<Rightarrow> NodeID \<Rightarrow> contractor_state \<Rightarrow> error + (bool \<times> contractor_state)" where
  "ContractNode Run RUNSIMULATION node st =
     (let inserted_edges_size = length (inserted_edges (thread_data st)) in
      case for_each (in_edge_step Run RUNSIMULATION node)
             (GetAdjacentEdgeRange (graph st) node) st of
        Inl e \<Rightarrow> Inl e
      | Inr st1 \<Rightarrow>
          if \<not> RUNSIMULATION then
            (let iend = length (inserted_edges (thread_data st1)) in
             case dedup_loop (inserted_edges (thread_data st1))
                    inserted_edges_size inserted_edges_size iend of
               (edges, new_size) \<Rightarrow>
                 Inr (True, st1\<lparr>thread_data := (thread_data st1)\<lparr>inserted_edges :=
                                  take new_size edges\<rparr>\<rparr>))
          else Inr (True, st1))"

subsection \<open>The pool of thread data\<close>

text \<open>
  \<^verbatim>\<open>data.local(exists)\<close> gives the calling worker's own \<^verbatim>\<open>shared_ptr\<close> and tells
  whether the worker had one already: \<open>data_local\<close> maps a worker to the address
  its pointer holds, and has no entry for a worker that never called. The objects
  made by \<^verbatim>\<open>make_shared\<close> live in a store, addressed by their position.
\<close>

type_synonym thread_id = nat
type_synonym address = nat

record ThreadDataContainer =
  number_of_nodes :: int
  data_local :: "thread_id \<rightharpoonup> address"

definition ThreadDataContainer_init :: "int \<Rightarrow> ThreadDataContainer" where
  "ThreadDataContainer_init n = \<lparr>number_of_nodes = n, data_local = Map.empty\<rparr>"

definition make_shared ::
  "ContractorThreadData \<Rightarrow> ContractorThreadData list \<Rightarrow> address \<times> ContractorThreadData list" where
  "make_shared obj store = (length store, store @ [obj])"

definition GetThreadData ::
  "thread_id \<Rightarrow> ThreadDataContainer \<times> ContractorThreadData list
     \<Rightarrow> address \<times> ThreadDataContainer \<times> ContractorThreadData list" where
  "GetThreadData worker cs =
     (case cs of (c, store) \<Rightarrow>
      case data_local c worker of
        None \<Rightarrow>
          (case make_shared (ContractorThreadData_init 4000) store of
             (ref, store') \<Rightarrow> (ref, c\<lparr>data_local := (data_local c)(worker \<mapsto> ref)\<rparr>, store'))
      | Some ref \<Rightarrow> (ref, c, store))"

subsection \<open>Auxiliary notions for the proofs\<close>

text \<open>The node limit handed to the search in each mode.\<close>

definition search_space_size :: "bool \<Rightarrow> int" where
  "search_space_size RUNSIMULATION =
     (if RUNSIMULATION then SIMULATION_SEARCH_SPACE_SIZE else FULL_SEARCH_SPACE_SIZE)"

text \<open>What no step of ContractNode touches, in either mode.\<close>

definition same_frame :: "contractor_state \<Rightarrow> contractor_state \<Rightarrow> bool" where
  "same_frame st st' \<longleftrightarrow>
     graph st' = graph st \<and>
     neighbours (thread_data st') = neighbours (thread_data st) \<and>
     length (node_weights st') = length (node_weights st)"

text \<open>The two deletion counters of the statistics, when there are statistics.\<close>

definition deleted_counts :: "contractor_state \<Rightarrow> (int \<times> int) option" where
  "deleted_counts st =
     map_option (\<lambda>s. (edges_deleted_count s, original_edges_deleted_count s)) (stats st)"

text \<open>
  A node \<open>k\<close> other than the contracted one that has, among the edges \<open>es\<close> of the
  contracted node, one open backward and one open forward whose weights add up to
  less than \<open>limit\<close>: the sources of the loops that ContractNode records.
\<close>

definition loop_source :: "GraphEdge list \<Rightarrow> NodeID \<Rightarrow> EdgeWeight \<Rightarrow> NodeID \<Rightarrow> bool" where
  "loop_source es node limit k \<longleftrightarrow>
     k \<noteq> node \<and>
     (\<exists>in_edge \<in> set es. \<exists>out_edge \<in> set es.
        GetTarget in_edge = k \<and> backward (GetEdgeData in_edge) \<and>
        GetTarget out_edge = k \<and> forward (GetEdgeData out_edge) \<and>
        weight (GetEdgeData in_edge) + weight (GetEdgeData out_edge) < limit)"

definition weights_kept ::
  "GraphEdge list \<Rightarrow> NodeID \<Rightarrow> contractor_state \<Rightarrow> contractor_state \<Rightarrow> bool" where
  "weights_kept es node st st' \<longleftrightarrow>
     length (node_weights st') = length (node_weights st) \<and>
     (\<forall>k. node_weights st' ! k \<noteq> node_weights st ! k \<longrightarrow>
          loop_source es node (node_weights st ! node) k)"

text \<open>The entry a registered target has in the search object before the search.\<close>

definition goal :: "NodeID \<Rightarrow> HeapNode" where
  "goal t = \<lparr>heap_node = t, heap_key = INVALID_EDGE_WEIGHT,
             heap_data = \<lparr>hop = 0, is_target = True\<rparr>\<rparr>"

text \<open>
  The outgoing edges that lead to a search target: open forward, to a node other
  than the contracted node and the source.
\<close>

definition candidates :: "NodeID \<Rightarrow> NodeID \<Rightarrow> GraphEdge list \<Rightarrow> GraphEdge list" where
  "candidates node src es =
     filter (\<lambda>e. forward (GetEdgeData e) \<and> GetTarget e \<noteq> node \<and> GetTarget e \<noteq> src) es"

text \<open>The two records of a shortcut, and the test after the search that asks for them.\<close>

definition shortcut_pair ::
  "NodeID \<Rightarrow> NodeID \<Rightarrow> NodeID \<Rightarrow> ContractorEdgeData \<Rightarrow> ContractorEdgeData \<Rightarrow> ContractorEdge list" where
  "shortcut_pair node src tgt in_data out_data =
     [\<lparr>source = src, target = tgt,
       data = \<lparr>weight = weight in_data + weight out_data,
               duration = duration in_data + duration out_data,
               originalEdges = originalEdges out_data + originalEdges in_data,
               via = node, shortcut = True, forward = True, backward = False\<rparr>\<rparr>,
      \<lparr>source = tgt, target = src,
       data = \<lparr>weight = weight in_data + weight out_data,
               duration = duration in_data + duration out_data,
               originalEdges = originalEdges out_data + originalEdges in_data,
               via = node, shortcut = True, forward = False, backward = True\<rparr>\<rparr>]"

definition needs_shortcut ::
  "NodeID \<Rightarrow> ContractorEdgeData \<Rightarrow> ContractorDijkstra \<Rightarrow> GraphEdge \<Rightarrow> bool" where
  "needs_shortcut node in_data d out_edge \<longleftrightarrow>
     forward (GetEdgeData out_edge) \<and> GetTarget out_edge \<noteq> node \<and>
     (case GetKey d (GetTarget out_edge) of
        None \<Rightarrow> False
      | Some w \<Rightarrow> weight in_data + weight (GetEdgeData out_edge) < w)"

text \<open>
  The tuple on which the pass over the appended edges compares two records, and
  the pass as a function on the list of appended records: a record that has a
  later record with the same tuple gives its flags to the first such record and is
  dropped; the other records stay, in their order.
\<close>

definition edge_key :: "ContractorEdge \<Rightarrow> NodeID \<times> NodeID \<times> EdgeWeight \<times> bool" where
  "edge_key e = (source e, target e, weight (data e), shortcut (data e))"

definition merge_flags :: "ContractorEdge \<Rightarrow> ContractorEdge \<Rightarrow> ContractorEdge" where
  "merge_flags later e =
     later\<lparr>data := (data later)\<lparr>forward := forward (data later) \<or> forward (data e),
                                 backward := backward (data later) \<or> backward (data e)\<rparr>\<rparr>"

fun merge_first :: "ContractorEdge \<Rightarrow> ContractorEdge list \<Rightarrow> ContractorEdge list option" where
  "merge_first x [] = None"
| "merge_first x (y # ys) =
     (if edge_key y = edge_key x then Some (merge_flags y x # ys)
      else map_option ((#) y) (merge_first x ys))"

function merged :: "ContractorEdge list \<Rightarrow> ContractorEdge list" where
  "merged [] = []"
| "merged (x # xs) =
     (case merge_first x xs of Some xs' \<Rightarrow> merged xs' | None \<Rightarrow> x # merged xs)"
  by pat_completeness auto
termination
proof (relation "measure length")
  show "wf (measure length)" by simp
next
  fix x :: ContractorEdge and xs xs' :: "ContractorEdge list"
  assume "merge_first x xs = Some xs'"
  then have "length xs' = length xs"
    by (induction xs arbitrary: xs') (auto split: if_splits)
  then show "(xs', x # xs) \<in> measure length" by simp
next
  fix x :: ContractorEdge and xs :: "ContractorEdge list"
  show "(xs, x # xs) \<in> measure length" by simp
qed

definition any_forward :: "NodeID \<times> NodeID \<times> EdgeWeight \<times> bool \<Rightarrow> ContractorEdge list \<Rightarrow> bool" where
  "any_forward k xs \<longleftrightarrow> (\<exists>r \<in> set xs. edge_key r = k \<and> forward (data r))"

definition any_backward :: "NodeID \<times> NodeID \<times> EdgeWeight \<times> bool \<Rightarrow> ContractorEdge list \<Rightarrow> bool" where
  "any_backward k xs \<longleftrightarrow> (\<exists>r \<in> set xs. edge_key r = k \<and> backward (data r))"

subsection \<open>Example inputs\<close>

text \<open>
  Two searches to run the model with: one that settles nothing (its budget is used up
  at once, every target keeps its initial key), and one that settles the listed
  nodes at the listed distances.
\<close>

definition no_search :: search where
  "no_search n_targets limit max_weight node g d = d"

definition settle :: "(NodeID \<times> EdgeWeight) list \<Rightarrow> search" where
  "settle found n_targets limit max_weight node g d =
     d\<lparr>heap := map (\<lambda>h. case map_of found (heap_node h) of
                          Some w \<Rightarrow> h\<lparr>heap_key := w\<rparr>
                        | None \<Rightarrow> h) (heap d)\<rparr>"

definition edge_data :: "EdgeWeight \<Rightarrow> bool \<Rightarrow> bool \<Rightarrow> ContractorEdgeData" where
  "edge_data w fw bw =
     \<lparr>weight = w, duration = w, originalEdges = 1, via = 0,
      shortcut = False, forward = fw, backward = bw\<rparr>"

definition shortcut_data :: "EdgeWeight \<Rightarrow> NodeID \<Rightarrow> bool \<Rightarrow> bool \<Rightarrow> ContractorEdgeData" where
  "shortcut_data w v fw bw =
     \<lparr>weight = w, duration = w, originalEdges = 2, via = v,
      shortcut = True, forward = fw, backward = bw\<rparr>"

definition source_entry :: "NodeID \<Rightarrow> HeapNode" where
  "source_entry n = \<lparr>heap_node = n, heap_key = 0, heap_data = \<lparr>hop = 0, is_target = False\<rparr>\<rparr>"

definition target_entry :: "NodeID \<Rightarrow> EdgeWeight \<Rightarrow> HeapNode" where
  "target_entry n w = \<lparr>heap_node = n, heap_key = w, heap_data = \<lparr>hop = 0, is_target = True\<rparr>\<rparr>"

text \<open>
  The scenario of the specification: A to B (1), B to C (1), A to C (3), with A, B, C
  numbered 0, 1, 2. Each edge is stored at both of its endpoints, forward at its
  tail and backward at its head. Node B is contracted; the search from A finds C
  at distance 3.
\<close>

definition abc_graph :: ContractorGraph where
  "abc_graph n =
     (if n = 0 then [(1, edge_data 1 True False), (2, edge_data 3 True False)]
      else if n = 1 then [(0, edge_data 1 False True), (2, edge_data 1 True False)]
      else if n = 2 then [(1, edge_data 1 False True), (0, edge_data 3 False True)]
      else [])"

definition abc_state :: contractor_state where
  "abc_state =
     \<lparr>thread_data = ContractorThreadData_init 4000, stats = Some ContractionStats_init,
      graph = abc_graph, node_weights = [10, 10, 10], searches = []\<rparr>"

definition abc_search :: "int \<Rightarrow> search_call" where
  "abc_search limit =
     \<lparr>number_of_targets = 1, node_limit = limit, weight_limit = 2, forbidden_node = 1,
      called_on = \<lparr>capacity = 4000,
        heap = [source_entry 0, target_entry 2 INVALID_EDGE_WEIGHT]\<rparr>\<rparr>"

definition abc_simulated :: contractor_state where
  "abc_simulated =
     \<lparr>thread_data =
        \<lparr>dijkstra = \<lparr>capacity = 4000, heap = [source_entry 0, target_entry 2 3]\<rparr>,
         inserted_edges = [], neighbours = []\<rparr>,
      stats = Some \<lparr>edges_deleted_count = 2, edges_added_count = 2,
                    original_edges_deleted_count = 2, original_edges_added_count = 4\<rparr>,
      graph = abc_graph, node_weights = [10, 10, 10], searches = [abc_search 1000]\<rparr>"

definition abc_contracted :: contractor_state where
  "abc_contracted =
     \<lparr>thread_data =
        \<lparr>dijkstra = \<lparr>capacity = 4000, heap = [source_entry 0, target_entry 2 3]\<rparr>,
         inserted_edges =
           [\<lparr>source = 0, target = 2, data = shortcut_data 2 1 True False\<rparr>,
            \<lparr>source = 2, target = 0, data = shortcut_data 2 1 False True\<rparr>],
         neighbours = []\<rparr>,
      stats = Some ContractionStats_init,
      graph = abc_graph, node_weights = [10, 10, 10], searches = [abc_search 2000]\<rparr>"

text \<open>
  Two nodes joined by one edge open in both directions: contracting node 0 makes
  node 1 the source and the target of a path of weight 2 through node 0. The weight
  of node 0 is 10, the weight of node 1 is 1.
\<close>

definition loop_graph :: ContractorGraph where
  "loop_graph n =
     (if n = 0 then [(1, edge_data 1 True True)]
      else if n = 1 then [(0, edge_data 1 True True)]
      else [])"

definition loop_state :: contractor_state where
  "loop_state =
     \<lparr>thread_data = ContractorThreadData_init 4000, stats = Some ContractionStats_init,
      graph = loop_graph, node_weights = [10, 1], searches = []\<rparr>"

definition loop_search :: "int \<Rightarrow> search_call" where
  "loop_search limit =
     \<lparr>number_of_targets = 0, node_limit = limit, weight_limit = 0, forbidden_node = 0,
      called_on = \<lparr>capacity = 4000, heap = [source_entry 1]\<rparr>\<rparr>"

definition loop_simulated :: contractor_state where
  "loop_simulated =
     \<lparr>thread_data =
        \<lparr>dijkstra = \<lparr>capacity = 4000, heap = [source_entry 1]\<rparr>,
         inserted_edges = [], neighbours = []\<rparr>,
      stats = Some \<lparr>edges_deleted_count = 1, edges_added_count = 2,
                    original_edges_deleted_count = 1, original_edges_added_count = 4\<rparr>,
      graph = loop_graph, node_weights = [10, 3], searches = [loop_search 1000]\<rparr>"

definition loop_edges_done :: contractor_state where
  "loop_edges_done =
     \<lparr>thread_data =
        \<lparr>dijkstra = \<lparr>capacity = 4000, heap = [source_entry 1]\<rparr>,
         inserted_edges =
           [\<lparr>source = 1, target = 1, data = shortcut_data 2 0 True False\<rparr>,
            \<lparr>source = 1, target = 1, data = shortcut_data 2 0 False True\<rparr>],
         neighbours = []\<rparr>,
      stats = Some ContractionStats_init,
      graph = loop_graph, node_weights = [10, 2], searches = [loop_search 2000]\<rparr>"

text \<open>
  Node 1 between nodes 0 and 2, both edges open in both directions and of weight 1:
  contracting node 1 records the path from 0 to 2 and the path from 2 to 0, each as
  two records, and a loop at each of 0 and 2.
\<close>

definition two_way_graph :: ContractorGraph where
  "two_way_graph n =
     (if n = 0 then [(1, edge_data 1 True True)]
      else if n = 1 then [(0, edge_data 1 True True), (2, edge_data 1 True True)]
      else if n = 2 then [(1, edge_data 1 True True)]
      else [])"

definition two_way_state :: contractor_state where
  "two_way_state =
     \<lparr>thread_data = ContractorThreadData_init 4000, stats = None,
      graph = two_way_graph, node_weights = [10, 10, 10], searches = []\<rparr>"

definition two_way_searches :: "search_call list" where
  "two_way_searches =
     [\<lparr>number_of_targets = 1, node_limit = 2000, weight_limit = 2, forbidden_node = 1,
       called_on = \<lparr>capacity = 4000,
         heap = [source_entry 0, target_entry 2 INVALID_EDGE_WEIGHT]\<rparr>\<rparr>,
      \<lparr>number_of_targets = 1, node_limit = 2000, weight_limit = 2, forbidden_node = 1,
       called_on = \<lparr>capacity = 4000,
         heap = [source_entry 2, target_entry 0 INVALID_EDGE_WEIGHT]\<rparr>\<rparr>]"

definition two_way_edges_done :: contractor_state where
  "two_way_edges_done =
     \<lparr>thread_data =
        \<lparr>dijkstra = \<lparr>capacity = 4000,
           heap = [source_entry 2, target_entry 0 INVALID_EDGE_WEIGHT]\<rparr>,
         inserted_edges =
           [\<lparr>source = 0, target = 0, data = shortcut_data 2 1 True False\<rparr>,
            \<lparr>source = 0, target = 0, data = shortcut_data 2 1 False True\<rparr>,
            \<lparr>source = 0, target = 2, data = shortcut_data 2 1 True False\<rparr>,
            \<lparr>source = 2, target = 0, data = shortcut_data 2 1 False True\<rparr>,
            \<lparr>source = 2, target = 2, data = shortcut_data 2 1 True False\<rparr>,
            \<lparr>source = 2, target = 2, data = shortcut_data 2 1 False True\<rparr>,
            \<lparr>source = 2, target = 0, data = shortcut_data 2 1 True False\<rparr>,
            \<lparr>source = 0, target = 2, data = shortcut_data 2 1 False True\<rparr>],
         neighbours = []\<rparr>,
      stats = None,
      graph = two_way_graph, node_weights = [2, 10, 2], searches = two_way_searches\<rparr>"

definition two_way_contracted :: contractor_state where
  "two_way_contracted =
     \<lparr>thread_data =
        \<lparr>dijkstra = \<lparr>capacity = 4000,
           heap = [source_entry 2, target_entry 0 INVALID_EDGE_WEIGHT]\<rparr>,
         inserted_edges =
           [\<lparr>source = 0, target = 0, data = shortcut_data 2 1 True True\<rparr>,
            \<lparr>source = 2, target = 2, data = shortcut_data 2 1 True True\<rparr>,
            \<lparr>source = 2, target = 0, data = shortcut_data 2 1 True True\<rparr>,
            \<lparr>source = 0, target = 2, data = shortcut_data 2 1 True True\<rparr>],
         neighbours = []\<rparr>,
      stats = None,
      graph = two_way_graph, node_weights = [2, 10, 2], searches = two_way_searches\<rparr>"

text \<open>
  The first scenario with a second, parallel edge from B to C, of weight 5; the
  search settles nothing.
\<close>

definition parallel_graph :: ContractorGraph where
  "parallel_graph n =
     (if n = 1 then [(0, edge_data 1 False True), (2, edge_data 1 True False),
                     (2, edge_data 5 True False)]
      else abc_graph n)"

definition parallel_state :: contractor_state where
  "parallel_state =
     \<lparr>thread_data = ContractorThreadData_init 4000, stats = None,
      graph = parallel_graph, node_weights = [10, 10, 10], searches = []\<rparr>"

definition parallel_edge_done :: contractor_state where
  "parallel_edge_done =
     \<lparr>thread_data =
        \<lparr>dijkstra = \<lparr>capacity = 4000,
           heap = [source_entry 0, target_entry 2 INVALID_EDGE_WEIGHT]\<rparr>,
         inserted_edges =
           [\<lparr>source = 0, target = 2, data = shortcut_data 2 1 True False\<rparr>,
            \<lparr>source = 2, target = 0, data = shortcut_data 2 1 False True\<rparr>,
            \<lparr>source = 0, target = 2, data = shortcut_data 6 1 True False\<rparr>,
            \<lparr>source = 2, target = 0, data = shortcut_data 6 1 False True\<rparr>],
         neighbours = []\<rparr>,
      stats = None,
      graph = parallel_graph, node_weights = [10, 10, 10],
      searches =
        [\<lparr>number_of_targets = 1, node_limit = 2000, weight_limit = 6, forbidden_node = 1,
          called_on = \<lparr>capacity = 4000,
            heap = [source_entry 0, target_entry 2 INVALID_EDGE_WEIGHT]\<rparr>\<rparr>]\<rparr>"

section \<open>Properties\<close>

declare merge_into_later.simps [simp del]
declare dedup_loop.simps [simp del]

subsection \<open>Loops\<close>

lemma for_each_append:
  "for_each body (xs @ ys) s =
     (case for_each body xs s of Inl e \<Rightarrow> Inl e | Inr s' \<Rightarrow> for_each body ys s')"
  by (induction xs arbitrary: s) (auto split: sum.splits)

lemma for_each_invariant:
  assumes step: "\<And>x s s'. x \<in> set xs \<Longrightarrow> I s \<Longrightarrow> body x s = Inr s' \<Longrightarrow> I s'"
    and init: "I s"
    and run: "for_each body xs s = Inr s'"
  shows "I s'"
  using assms
proof (induction xs arbitrary: s)
  case Nil
  then show ?case by simp
next
  case (Cons x xs)
  from Cons.prems(3) obtain s1 where s1: "body x s = Inr s1" and rest: "for_each body xs s1 = Inr s'"
    by (auto split: sum.splits)
  have "I s1" using Cons.prems(1)[of x s s1] Cons.prems(2) s1 by simp
  moreover have "\<And>y t t'. y \<in> set xs \<Longrightarrow> I t \<Longrightarrow> body y t = Inr t' \<Longrightarrow> I t'"
    using Cons.prems(1) by (meson list.set_intros(2))
  ultimately show ?case using Cons.IH[of s1] rest by blast
qed

lemma for_each_never:
  assumes safe: "\<And>x s. I s \<Longrightarrow> body x s \<noteq> Inl err"
    and step: "\<And>x s s'. I s \<Longrightarrow> body x s = Inr s' \<Longrightarrow> I s'"
    and init: "I s"
  shows "for_each body xs s \<noteq> Inl err"
  using init
proof (induction xs arbitrary: s)
  case Nil
  then show ?case by simp
next
  case (Cons x xs)
  show ?case
  proof (cases "body x s")
    case (Inl e)
    then show ?thesis using safe[OF Cons.prems, of x] by auto
  next
    case (Inr s1)
    then show ?thesis using Cons.IH[of s1] step[OF Cons.prems Inr] by simp
  qed
qed

lemma for_each_skip:
  assumes "\<And>x s. x \<in> set xs \<Longrightarrow> \<not> keep x \<Longrightarrow> body x s = Inr s"
  shows "for_each body (filter keep xs) s = for_each body xs s"
  using assms by (induction xs arbitrary: s) (auto split: sum.splits)

lemma in_edge_step_self:
  "GetTarget e = node \<Longrightarrow> in_edge_step Run sim node e st = Inr st"
  by (simp add: in_edge_step_def)

lemma first_scan_step_self:
  "GetTarget e = node \<Longrightarrow> first_scan_step sim node src in_data e s = Inr s"
  by (simp add: first_scan_step_def Let_def split: prod.splits)

lemma second_scan_step_self:
  "GetTarget e = node \<Longrightarrow> second_scan_step sim node src in_data e st = Inr st"
  by (simp add: second_scan_step_def Let_def)

subsection \<open>The statistics pointer\<close>

lemma count_shortcuts_stats:
  "count_shortcuts in_data out_data st = Inr st' \<Longrightarrow> stats st \<noteq> None \<and> stats st' \<noteq> None"
  by (auto simp: count_shortcuts_def split: option.splits)

lemma count_shortcuts_safe:
  "stats st \<noteq> None \<Longrightarrow> count_shortcuts in_data out_data st \<noteq> Inl e"
  by (auto simp: count_shortcuts_def split: option.splits)

lemma first_scan_step_stats:
  "first_scan_step sim node src in_data e s = Inr s' \<Longrightarrow>
     stats (fst s) \<noteq> None \<Longrightarrow> stats (fst s') \<noteq> None"
  by (auto simp: first_scan_step_def Let_def dest: count_shortcuts_stats
           split: prod.splits if_splits sum.splits)

lemma first_scan_step_safe:
  "stats (fst s) \<noteq> None \<Longrightarrow> first_scan_step sim node src in_data e s \<noteq> Inl AssertionFailed"
  by (auto simp: first_scan_step_def Let_def count_shortcuts_def
           split: prod.splits if_splits sum.splits option.splits)

lemma second_scan_step_stats:
  "second_scan_step sim node src in_data e st = Inr st' \<Longrightarrow>
     stats st \<noteq> None \<Longrightarrow> stats st' \<noteq> None"
  by (auto simp: second_scan_step_def Let_def dest: count_shortcuts_stats
           split: if_splits option.splits)

lemma second_scan_step_safe:
  "stats st \<noteq> None \<Longrightarrow> second_scan_step sim node src in_data e st \<noteq> Inl AssertionFailed"
  by (auto simp: second_scan_step_def Let_def count_shortcuts_def
           split: if_splits option.splits)

lemma first_scan_safe:
  "stats (fst s) \<noteq> None \<Longrightarrow>
     for_each (first_scan_step sim node src in_data) es s \<noteq> Inl AssertionFailed"
  by (rule for_each_never[where I = "\<lambda>s. stats (fst s) \<noteq> None"])
     (auto simp: first_scan_step_safe dest: first_scan_step_stats)

lemma first_scan_stats:
  "for_each (first_scan_step sim node src in_data) es s = Inr s' \<Longrightarrow>
     stats (fst s) \<noteq> None \<Longrightarrow> stats (fst s') \<noteq> None"
  by (rule for_each_invariant[where I = "\<lambda>s. stats (fst s) \<noteq> None"])
     (auto dest: first_scan_step_stats)

lemma second_scan_safe:
  "stats st \<noteq> None \<Longrightarrow>
     for_each (second_scan_step sim node src in_data) es st \<noteq> Inl AssertionFailed"
  by (rule for_each_never[where I = "\<lambda>s. stats s \<noteq> None"])
     (auto simp: second_scan_step_safe dest: second_scan_step_stats)

lemma second_scan_stats:
  "for_each (second_scan_step sim node src in_data) es st = Inr st' \<Longrightarrow>
     stats st \<noteq> None \<Longrightarrow> stats st' \<noteq> None"
  by (rule for_each_invariant[where I = "\<lambda>s. stats s \<noteq> None"])
     (auto dest: second_scan_step_stats)

lemma run_search_stats [simp]: "stats (run_search Run n l w node st) = stats st"
  by (simp add: run_search_def)

lemma graph_start_search [simp]: "graph (start_search src st) = graph st"
  by (simp add: start_search_def)

lemma graph_run_search [simp]: "graph (run_search Run n l w node st) = graph st"
  by (simp add: run_search_def)

lemma stats_start_search [simp]: "stats (start_search src st) = stats st"
  by (simp add: start_search_def)

lemma in_edge_step_unfold:
  "in_edge_step Run sim node e st =
     (if GetTarget e = node then Inr st
      else case count_deleted sim (GetEdgeData e) st of
          Inl err \<Rightarrow> Inl err
        | Inr st1 \<Rightarrow>
            if \<not> backward (GetEdgeData e) then Inr st1
            else
              case for_each (first_scan_step sim node (GetTarget e) (GetEdgeData e))
                     (GetAdjacentEdgeRange (graph st1) node) (start_search (GetTarget e) st1, 0, 0) of
                Inl err \<Rightarrow> Inl err
              | Inr (st3, mw, nt) \<Rightarrow>
                  for_each (second_scan_step sim node (GetTarget e) (GetEdgeData e))
                    (GetAdjacentEdgeRange (graph st3) node)
                    (run_search Run nt (search_space_size sim) mw node st3))"
  by (simp add: in_edge_step_def Let_def search_space_size_def cong: sum.case_cong if_cong)

lemma in_edge_step_Inr:
  assumes "in_edge_step Run sim node e st = Inr st'"
  obtains (self) "GetTarget e = node" "st' = st"
  | (closed) "GetTarget e \<noteq> node" "\<not> backward (GetEdgeData e)"
      "count_deleted sim (GetEdgeData e) st = Inr st'"
  | (search) st1 st3 mw nt where "GetTarget e \<noteq> node" "backward (GetEdgeData e)"
      "count_deleted sim (GetEdgeData e) st = Inr st1"
      "for_each (first_scan_step sim node (GetTarget e) (GetEdgeData e))
         (GetAdjacentEdgeRange (graph st1) node) (start_search (GetTarget e) st1, 0, 0)
       = Inr (st3, mw, nt)"
      "for_each (second_scan_step sim node (GetTarget e) (GetEdgeData e))
         (GetAdjacentEdgeRange (graph st3) node) (run_search Run nt (search_space_size sim) mw node st3)
       = Inr st'"
proof (cases "GetTarget e = node")
  case True
  moreover from True assms have "st' = st" by (simp add: in_edge_step_unfold)
  ultimately show ?thesis by (rule self)
next
  case ne: False
  show ?thesis
  proof (cases "count_deleted sim (GetEdgeData e) st")
    case (Inl err)
    then show ?thesis using assms ne by (simp add: in_edge_step_unfold)
  next
    case st1: (Inr st1)
    show ?thesis
    proof (cases "backward (GetEdgeData e)")
      case False
      moreover from False assms ne st1 have "st1 = st'" by (simp add: in_edge_step_unfold)
      ultimately show ?thesis using closed ne st1 by blast
    next
      case bw: True
      show ?thesis
      proof (cases "for_each (first_scan_step sim node (GetTarget e) (GetEdgeData e))
         (GetAdjacentEdgeRange (graph st1) node) (start_search (GetTarget e) st1, 0, 0)")
        case (Inl err)
        then show ?thesis using assms ne st1 bw by (simp add: in_edge_step_unfold)
      next
        case (Inr r)
        obtain st3 mw nt where r: "r = (st3, mw, nt)" by (cases r) auto
        from assms ne st1 bw Inr r
        have "for_each (second_scan_step sim node (GetTarget e) (GetEdgeData e))
            (GetAdjacentEdgeRange (graph st3) node) (run_search Run nt (search_space_size sim) mw node st3)
          = Inr st'"
          by (simp add: in_edge_step_unfold)
        then show ?thesis using search[of st1 st3 mw nt] ne st1 bw Inr r by blast
      qed
    qed
  qed
qed

lemma in_edge_step_Inl:
  assumes "in_edge_step Run sim node e st = Inl err"
  obtains (count) "GetTarget e \<noteq> node" "count_deleted sim (GetEdgeData e) st = Inl err"
  | (first) st1 where "GetTarget e \<noteq> node" "backward (GetEdgeData e)"
      "count_deleted sim (GetEdgeData e) st = Inr st1"
      "for_each (first_scan_step sim node (GetTarget e) (GetEdgeData e))
         (GetAdjacentEdgeRange (graph st1) node) (start_search (GetTarget e) st1, 0, 0)
       = Inl err"
  | (second) st1 st3 mw nt where "GetTarget e \<noteq> node" "backward (GetEdgeData e)"
      "count_deleted sim (GetEdgeData e) st = Inr st1"
      "for_each (first_scan_step sim node (GetTarget e) (GetEdgeData e))
         (GetAdjacentEdgeRange (graph st1) node) (start_search (GetTarget e) st1, 0, 0)
       = Inr (st3, mw, nt)"
      "for_each (second_scan_step sim node (GetTarget e) (GetEdgeData e))
         (GetAdjacentEdgeRange (graph st3) node) (run_search Run nt (search_space_size sim) mw node st3)
       = Inl err"
proof (cases "GetTarget e = node")
  case True
  then show ?thesis using assms by (simp add: in_edge_step_unfold)
next
  case ne: False
  show ?thesis
  proof (cases "count_deleted sim (GetEdgeData e) st")
    case (Inl err')
    moreover from Inl assms ne have "err' = err" by (simp add: in_edge_step_unfold)
    ultimately show ?thesis using count ne by blast
  next
    case st1: (Inr st1)
    show ?thesis
    proof (cases "backward (GetEdgeData e)")
      case False
      then show ?thesis using assms ne st1 by (simp add: in_edge_step_unfold)
    next
      case bw: True
      show ?thesis
      proof (cases "for_each (first_scan_step sim node (GetTarget e) (GetEdgeData e))
         (GetAdjacentEdgeRange (graph st1) node) (start_search (GetTarget e) st1, 0, 0)")
        case (Inl err')
        moreover from Inl assms ne st1 bw have "err' = err" by (simp add: in_edge_step_unfold)
        ultimately show ?thesis using first[of st1] ne st1 bw by blast
      next
        case (Inr r)
        obtain st3 mw nt where r: "r = (st3, mw, nt)" by (cases r) auto
        from assms ne st1 bw Inr r
        have "for_each (second_scan_step sim node (GetTarget e) (GetEdgeData e))
            (GetAdjacentEdgeRange (graph st3) node) (run_search Run nt (search_space_size sim) mw node st3)
          = Inl err"
          by (simp add: in_edge_step_unfold)
        then show ?thesis using second[of st1 st3 mw nt] ne st1 bw Inr r by blast
      qed
    qed
  qed
qed

lemma count_deleted_stats:
  "count_deleted sim in_data st = Inr st' \<Longrightarrow> stats st \<noteq> None \<Longrightarrow> stats st' \<noteq> None"
  by (auto simp: count_deleted_def split: if_splits option.splits)

lemma count_deleted_safe:
  "stats st \<noteq> None \<Longrightarrow> count_deleted sim in_data st \<noteq> Inl err"
  by (auto simp: count_deleted_def split: if_splits option.splits)

lemma count_deleted_null:
  "stats st = None \<Longrightarrow> count_deleted True in_data st = Inl AssertionFailed"
  by (simp add: count_deleted_def)

lemma in_edge_step_stats:
  assumes "in_edge_step Run sim node e st = Inr st'" "stats st \<noteq> None"
  shows "stats st' \<noteq> None"
  using assms(1)
proof (cases rule: in_edge_step_Inr)
  case self
  then show ?thesis using assms(2) by simp
next
  case closed
  then show ?thesis using assms(2) count_deleted_stats by blast
next
  case (search st1 st3 mw nt)
  have "stats st1 \<noteq> None" using search(3) assms(2) count_deleted_stats by blast
  then have "stats st3 \<noteq> None" using first_scan_stats[OF search(4)] by simp
  then show ?thesis using second_scan_stats[OF search(5)] by simp
qed

lemma in_edge_step_safe:
  assumes "stats st \<noteq> None"
  shows "in_edge_step Run sim node e st \<noteq> Inl AssertionFailed"
proof
  assume "in_edge_step Run sim node e st = Inl AssertionFailed"
  then show False
  proof (cases rule: in_edge_step_Inl)
    case count
    then show ?thesis using assms count_deleted_safe by blast
  next
    case (first st1)
    have "stats st1 \<noteq> None" using first(3) assms count_deleted_stats by blast
    then show ?thesis using first(4) first_scan_safe[of "(start_search (GetTarget e) st1, 0, 0)"] by simp
  next
    case (second st1 st3 mw nt)
    have "stats st1 \<noteq> None" using second(3) assms count_deleted_stats by blast
    then have "stats st3 \<noteq> None" using first_scan_stats[OF second(4)] by simp
    then show ?thesis using second(5) second_scan_safe[of "run_search Run nt (search_space_size sim) mw node st3"] by simp
  qed
qed

lemma in_edges_safe:
  "stats st \<noteq> None \<Longrightarrow> for_each (in_edge_step Run sim node) es st \<noteq> Inl AssertionFailed"
  by (rule for_each_never[where I = "\<lambda>s. stats s \<noteq> None"])
     (auto simp: in_edge_step_safe dest: in_edge_step_stats)

lemma in_edges_null_stats:
  assumes "stats st = None" "\<exists>e \<in> set es. GetTarget e \<noteq> node"
  shows "for_each (in_edge_step Run True node) es st = Inl AssertionFailed"
  using assms(2)
proof (induction es)
  case Nil
  then show ?case by simp
next
  case (Cons e es)
  show ?case
  proof (cases "GetTarget e = node")
    case True
    then show ?thesis using Cons by (simp add: in_edge_step_self)
  next
    case False
    then show ?thesis using assms(1) by (simp add: in_edge_step_def count_deleted_null)
  qed
qed

subsection \<open>The frame of every step\<close>

lemma same_frame_refl [simp]: "same_frame st st"
  by (simp add: same_frame_def)

lemma same_frame_trans: "same_frame a b \<Longrightarrow> same_frame b c \<Longrightarrow> same_frame a c"
  by (simp add: same_frame_def)

lemma count_shortcuts_frame:
  "count_shortcuts in_data out_data st = Inr st' \<Longrightarrow> same_frame st st'"
  by (auto simp: count_shortcuts_def same_frame_def split: option.splits)

lemma count_deleted_frame:
  "count_deleted sim in_data st = Inr st' \<Longrightarrow> same_frame st st'"
  by (auto simp: count_deleted_def same_frame_def split: option.splits if_splits)

lemma start_search_frame [simp]: "same_frame st (start_search src st)"
  by (simp add: start_search_def same_frame_def)

lemma run_search_frame [simp]: "same_frame st (run_search Run n l w node st)"
  by (simp add: run_search_def same_frame_def)

lemma first_scan_step_frame:
  "first_scan_step sim node src in_data e (st, mw, nt) = Inr (st', mw', nt') \<Longrightarrow> same_frame st st'"
  by (auto simp: first_scan_step_def Let_def same_frame_def count_shortcuts_def
           split: if_splits sum.splits option.splits)

lemma second_scan_step_frame:
  "second_scan_step sim node src in_data e st = Inr st' \<Longrightarrow> same_frame st st'"
  by (auto simp: second_scan_step_def Let_def same_frame_def count_shortcuts_def
           split: if_splits option.splits)

lemma first_scan_frame:
  assumes "for_each (first_scan_step sim node src in_data) es s = Inr s'"
  shows "same_frame (fst s) (fst s')"
proof (rule for_each_invariant[where I = "\<lambda>t. same_frame (fst s) (fst t)", OF _ _ assms])
  fix x t t'
  assume "same_frame (fst s) (fst t)" "first_scan_step sim node src in_data x t = Inr t'"
  then show "same_frame (fst s) (fst t')"
    using first_scan_step_frame[of sim node src in_data x "fst t" "fst (snd t)" "snd (snd t)"
        "fst t'" "fst (snd t')" "snd (snd t')"] same_frame_trans by auto
qed simp

lemma second_scan_frame:
  assumes "for_each (second_scan_step sim node src in_data) es st = Inr st'"
  shows "same_frame st st'"
  by (rule for_each_invariant[where I = "same_frame st", OF _ _ assms])
     (auto dest: second_scan_step_frame same_frame_trans)

lemma in_edge_step_frame:
  assumes "in_edge_step Run sim node e st = Inr st'"
  shows "same_frame st st'"
  using assms
proof (cases rule: in_edge_step_Inr)
  case self
  then show ?thesis by simp
next
  case closed
  then show ?thesis by (simp add: count_deleted_frame)
next
  case (search st1 st3 mw nt)
  have "same_frame st st1" using search(3) by (rule count_deleted_frame)
  moreover have "same_frame st1 st3"
    using first_scan_frame[OF search(4)] start_search_frame same_frame_trans by fastforce
  moreover have "same_frame st3 st'"
    using second_scan_frame[OF search(5)] run_search_frame same_frame_trans by blast
  ultimately show ?thesis using same_frame_trans by blast
qed

lemma in_edges_frame:
  assumes "for_each (in_edge_step Run sim node) es st = Inr st'"
  shows "same_frame st st'"
  by (rule for_each_invariant[where I = "same_frame st", OF _ _ assms])
     (auto dest: in_edge_step_frame same_frame_trans)

subsection \<open>The log of searches\<close>

lemma count_shortcuts_searches:
  "count_shortcuts in_data out_data st = Inr st' \<Longrightarrow> searches st' = searches st"
  by (auto simp: count_shortcuts_def split: option.splits)

lemma count_deleted_searches:
  "count_deleted sim in_data st = Inr st' \<Longrightarrow> searches st' = searches st"
  by (auto simp: count_deleted_def split: option.splits if_splits)

lemma start_search_searches [simp]: "searches (start_search src st) = searches st"
  by (simp add: start_search_def)

lemma first_scan_step_searches:
  "first_scan_step sim node src in_data e s = Inr s' \<Longrightarrow> searches (fst s') = searches (fst s)"
  by (auto simp: first_scan_step_def Let_def count_shortcuts_def
           split: prod.splits if_splits sum.splits option.splits)

lemma second_scan_step_searches:
  "second_scan_step sim node src in_data e st = Inr st' \<Longrightarrow> searches st' = searches st"
  by (auto simp: second_scan_step_def Let_def count_shortcuts_def
           split: if_splits option.splits)

lemma first_scan_searches:
  assumes "for_each (first_scan_step sim node src in_data) es s = Inr s'"
  shows "searches (fst s') = searches (fst s)"
  by (rule for_each_invariant[where I = "\<lambda>t. searches (fst t) = searches (fst s)", OF _ _ assms])
     (auto dest: first_scan_step_searches)

lemma second_scan_searches:
  assumes "for_each (second_scan_step sim node src in_data) es st = Inr st'"
  shows "searches st' = searches st"
  by (rule for_each_invariant[where I = "\<lambda>t. searches t = searches st", OF _ _ assms])
     (auto dest: second_scan_step_searches)



lemma ContractNode_Inr:
  assumes "ContractNode Run sim node st = Inr (b, st')"
  obtains st1 where
    "for_each (in_edge_step Run sim node) (GetAdjacentEdgeRange (graph st) node) st = Inr st1"
    "b = True"
    "sim \<Longrightarrow> st' = st1"
    "\<not> sim \<Longrightarrow> st' = st1\<lparr>thread_data := (thread_data st1)\<lparr>inserted_edges :=
        take (snd (dedup_loop (inserted_edges (thread_data st1))
                (length (inserted_edges (thread_data st))) (length (inserted_edges (thread_data st)))
                (length (inserted_edges (thread_data st1)))))
          (fst (dedup_loop (inserted_edges (thread_data st1))
                (length (inserted_edges (thread_data st))) (length (inserted_edges (thread_data st)))
                (length (inserted_edges (thread_data st1)))))\<rparr>\<rparr>"
proof (cases "for_each (in_edge_step Run sim node) (GetAdjacentEdgeRange (graph st) node) st")
  case (Inl e)
  then show ?thesis using assms by (simp add: ContractNode_def)
next
  case (Inr st1)
  show ?thesis
  proof (rule that[of st1])
    show "for_each (in_edge_step Run sim node) (GetAdjacentEdgeRange (graph st) node) st = Inr st1"
      by (rule Inr)
    show "b = True" using assms Inr
      by (simp add: ContractNode_def Let_def split: if_splits prod.splits)
    show "sim \<Longrightarrow> st' = st1" using assms Inr by (simp add: ContractNode_def)
    show "\<not> sim \<Longrightarrow> st' = st1\<lparr>thread_data := (thread_data st1)\<lparr>inserted_edges :=
        take (snd (dedup_loop (inserted_edges (thread_data st1))
                (length (inserted_edges (thread_data st))) (length (inserted_edges (thread_data st)))
                (length (inserted_edges (thread_data st1)))))
          (fst (dedup_loop (inserted_edges (thread_data st1))
                (length (inserted_edges (thread_data st))) (length (inserted_edges (thread_data st)))
                (length (inserted_edges (thread_data st1)))))\<rparr>\<rparr>"
      using assms Inr by (simp add: ContractNode_def Let_def split: prod.splits)
  qed
qed

subsection \<open>Simulation: counters, buffer and node weights\<close>

subsubsection \<open>Deletion counters\<close>

lemma count_shortcuts_deleted:
  "count_shortcuts in_data out_data st = Inr st' \<Longrightarrow> deleted_counts st' = deleted_counts st"
  by (auto simp: count_shortcuts_def deleted_counts_def split: option.splits)

lemma start_search_deleted [simp]: "deleted_counts (start_search src st) = deleted_counts st"
  by (simp add: start_search_def deleted_counts_def)

lemma run_search_deleted [simp]: "deleted_counts (run_search Run n l w node st) = deleted_counts st"
  by (simp add: run_search_def deleted_counts_def)

lemma first_scan_step_deleted:
  "first_scan_step sim node src in_data e s = Inr s' \<Longrightarrow>
     deleted_counts (fst s') = deleted_counts (fst s)"
  by (auto simp: first_scan_step_def Let_def count_shortcuts_def deleted_counts_def
           split: prod.splits if_splits sum.splits option.splits)

lemma second_scan_step_deleted:
  "second_scan_step sim node src in_data e st = Inr st' \<Longrightarrow>
     deleted_counts st' = deleted_counts st"
  by (auto simp: second_scan_step_def Let_def count_shortcuts_def deleted_counts_def
           split: if_splits option.splits)

lemma first_scan_deleted:
  assumes "for_each (first_scan_step sim node src in_data) es s = Inr s'"
  shows "deleted_counts (fst s') = deleted_counts (fst s)"
  by (rule for_each_invariant[where I = "\<lambda>t. deleted_counts (fst t) = deleted_counts (fst s)",
        OF _ _ assms])
     (auto dest: first_scan_step_deleted)

lemma second_scan_deleted:
  assumes "for_each (second_scan_step sim node src in_data) es st = Inr st'"
  shows "deleted_counts st' = deleted_counts st"
  by (rule for_each_invariant[where I = "\<lambda>t. deleted_counts t = deleted_counts st", OF _ _ assms])
     (auto dest: second_scan_step_deleted)

lemma count_deleted_simulation:
  "count_deleted True in_data st = Inr st' \<Longrightarrow> deleted_counts st = Some (n, m) \<Longrightarrow>
     deleted_counts st' = Some (n + 1, m + int (originalEdges in_data))"
  by (auto simp: count_deleted_def deleted_counts_def split: option.splits)

lemma in_edge_step_deleted:
  assumes "in_edge_step Run True node e st = Inr st'" "deleted_counts st = Some (n, m)"
  shows "deleted_counts st' =
     (if GetTarget e \<noteq> node then Some (n + 1, m + int (originalEdges (GetEdgeData e)))
      else Some (n, m))"
  using assms(1)
proof (cases rule: in_edge_step_Inr)
  case self
  then show ?thesis using assms(2) by simp
next
  case closed
  then show ?thesis using assms(2) count_deleted_simulation by simp
next
  case (search st1 st3 mw nt)
  have "deleted_counts st1 = Some (n + 1, m + int (originalEdges (GetEdgeData e)))"
    using search(3) assms(2) by (rule count_deleted_simulation)
  moreover have "deleted_counts st3 = deleted_counts st1"
    using first_scan_deleted[OF search(4)] by simp
  moreover have "deleted_counts st' = deleted_counts st3"
    using second_scan_deleted[OF search(5)] by simp
  ultimately show ?thesis using search(1) by simp
qed

lemma in_edges_deleted:
  assumes "for_each (in_edge_step Run True node) es st = Inr st'" "deleted_counts st = Some (n, m)"
  shows "deleted_counts st' =
     Some (n + int (length (filter (\<lambda>e. GetTarget e \<noteq> node) es)),
           m + (\<Sum>e\<leftarrow>filter (\<lambda>e. GetTarget e \<noteq> node) es. int (originalEdges (GetEdgeData e))))"
  using assms
proof (induction es arbitrary: st n m)
  case Nil
  then show ?case by simp
next
  case (Cons e es)
  from Cons.prems(1) obtain st1 where step: "in_edge_step Run True node e st = Inr st1"
    and rest: "for_each (in_edge_step Run True node) es st1 = Inr st'"
    by (auto split: sum.splits)
  show ?case
  proof (cases "GetTarget e = node")
    case True
    then have "deleted_counts st1 = Some (n, m)"
      using in_edge_step_deleted[OF step Cons.prems(2)] by simp
    from Cons.IH[OF rest this] True show ?thesis by simp
  next
    case False
    then have "deleted_counts st1 = Some (n + 1, m + int (originalEdges (GetEdgeData e)))"
      using in_edge_step_deleted[OF step Cons.prems(2)] by simp
    from Cons.IH[OF rest this] False show ?thesis by simp
  qed
qed

subsubsection \<open>The buffer\<close>

lemma count_shortcuts_buffer:
  "count_shortcuts in_data out_data st = Inr st' \<Longrightarrow>
     inserted_edges (thread_data st') = inserted_edges (thread_data st)"
  by (auto simp: count_shortcuts_def split: option.splits)

lemma count_deleted_thread_data:
  "count_deleted sim in_data st = Inr st' \<Longrightarrow> thread_data st' = thread_data st"
  by (auto simp: count_deleted_def split: option.splits if_splits)

lemma start_search_buffer [simp]:
  "inserted_edges (thread_data (start_search src st)) = inserted_edges (thread_data st)"
  by (simp add: start_search_def)

lemma run_search_buffer [simp]:
  "inserted_edges (thread_data (run_search Run n l w node st)) = inserted_edges (thread_data st)"
  by (simp add: run_search_def)

lemma first_scan_step_simulation_buffer:
  "first_scan_step True node src in_data e s = Inr s' \<Longrightarrow>
     inserted_edges (thread_data (fst s')) = inserted_edges (thread_data (fst s))"
  by (auto simp: first_scan_step_def Let_def count_shortcuts_def Insert_def
           split: prod.splits if_splits sum.splits option.splits)

lemma second_scan_step_simulation_buffer:
  "second_scan_step True node src in_data e st = Inr st' \<Longrightarrow>
     inserted_edges (thread_data st') = inserted_edges (thread_data st)"
  by (auto simp: second_scan_step_def Let_def count_shortcuts_def
           split: if_splits option.splits)

lemma first_scan_simulation_buffer:
  assumes "for_each (first_scan_step True node src in_data) es s = Inr s'"
  shows "inserted_edges (thread_data (fst s')) = inserted_edges (thread_data (fst s))"
  by (rule for_each_invariant[where
        I = "\<lambda>t. inserted_edges (thread_data (fst t)) = inserted_edges (thread_data (fst s))",
        OF _ _ assms])
     (auto dest: first_scan_step_simulation_buffer)

lemma second_scan_simulation_buffer:
  assumes "for_each (second_scan_step True node src in_data) es st = Inr st'"
  shows "inserted_edges (thread_data st') = inserted_edges (thread_data st)"
  by (rule for_each_invariant[where
        I = "\<lambda>t. inserted_edges (thread_data t) = inserted_edges (thread_data st)", OF _ _ assms])
     (auto dest: second_scan_step_simulation_buffer)

lemma in_edge_step_simulation_buffer:
  assumes "in_edge_step Run True node e st = Inr st'"
  shows "inserted_edges (thread_data st') = inserted_edges (thread_data st)"
  using assms
proof (cases rule: in_edge_step_Inr)
  case self
  then show ?thesis by simp
next
  case closed
  then show ?thesis by (simp add: count_deleted_thread_data)
next
  case (search st1 st3 mw nt)
  have "thread_data st1 = thread_data st" using search(3) by (rule count_deleted_thread_data)
  moreover have "inserted_edges (thread_data st3) = inserted_edges (thread_data st1)"
    using first_scan_simulation_buffer[OF search(4)] by simp
  moreover have "inserted_edges (thread_data st') = inserted_edges (thread_data st3)"
    using second_scan_simulation_buffer[OF search(5)] by simp
  ultimately show ?thesis by simp
qed

lemma in_edges_simulation_buffer:
  assumes "for_each (in_edge_step Run True node) es st = Inr st'"
  shows "inserted_edges (thread_data st') = inserted_edges (thread_data st)"
  by (rule for_each_invariant[where
        I = "\<lambda>t. inserted_edges (thread_data t) = inserted_edges (thread_data st)", OF _ _ assms])
     (auto dest: in_edge_step_simulation_buffer)

subsubsection \<open>Node weights\<close>

lemma count_shortcuts_node_weights:
  "count_shortcuts in_data out_data st = Inr st' \<Longrightarrow> node_weights st' = node_weights st"
  by (auto simp: count_shortcuts_def split: option.splits)

lemma count_deleted_node_weights:
  "count_deleted sim in_data st = Inr st' \<Longrightarrow> node_weights st' = node_weights st"
  by (auto simp: count_deleted_def split: option.splits if_splits)

lemma start_search_node_weights [simp]:
  "node_weights (start_search src st) = node_weights st"
  by (simp add: start_search_def)

lemma run_search_node_weights [simp]:
  "node_weights (run_search Run n l w node st) = node_weights st"
  by (simp add: run_search_def)

lemma second_scan_step_node_weights:
  "second_scan_step sim node src in_data e st = Inr st' \<Longrightarrow> node_weights st' = node_weights st"
  by (auto simp: second_scan_step_def Let_def count_shortcuts_def
           split: if_splits option.splits)

lemma second_scan_node_weights:
  assumes "for_each (second_scan_step sim node src in_data) es st = Inr st'"
  shows "node_weights st' = node_weights st"
  by (rule for_each_invariant[where I = "\<lambda>t. node_weights t = node_weights st", OF _ _ assms])
     (auto dest: second_scan_step_node_weights)

text \<open>The first scan writes a node weight only in the loop branch, at the source.\<close>

lemma first_scan_step_node_weights:
  assumes "first_scan_step sim node src in_data e s = Inr s'"
  shows "node_weights (fst s') = node_weights (fst s) \<or>
     (GetTarget e = src \<and> src \<noteq> node \<and> forward (GetEdgeData e) \<and>
      weight in_data + weight (GetEdgeData e) < node_weights (fst s) ! node \<and>
      node_weights (fst s') =
        (node_weights (fst s))[src := weight in_data + weight (GetEdgeData e) + (if sim then 1 else 0)])"
  using assms
  by (auto simp: first_scan_step_def Let_def count_shortcuts_def
           split: prod.splits if_splits sum.splits option.splits)

lemma weights_kept_refl [simp]: "weights_kept es node st st"
  by (simp add: weights_kept_def)

lemma weights_kept_same:
  "node_weights st'' = node_weights st' \<Longrightarrow> weights_kept es node st st' \<Longrightarrow>
     weights_kept es node st st''"
  by (simp add: weights_kept_def)

lemma weights_kept_node:
  "weights_kept es node st st' \<Longrightarrow> node_weights st' ! node = node_weights st ! node"
  by (auto simp: weights_kept_def loop_source_def)

lemma first_scan_step_weights_kept:
  assumes step: "first_scan_step sim node src in_data e s = Inr s'"
    and kept: "weights_kept es node st (fst s)"
    and in_edge: "(src, in_data) \<in> set es" "backward in_data"
    and out_edge: "e \<in> set es"
  shows "weights_kept es node st (fst s')"
proof -
  from first_scan_step_node_weights[OF step]
  consider (same) "node_weights (fst s') = node_weights (fst s)"
    | (loop) "GetTarget e = src" "src \<noteq> node" "forward (GetEdgeData e)"
        "weight in_data + weight (GetEdgeData e) < node_weights (fst s) ! node"
        "node_weights (fst s') =
          (node_weights (fst s))[src := weight in_data + weight (GetEdgeData e) + (if sim then 1 else 0)]"
    by blast
  then show ?thesis
  proof cases
    case same
    then show ?thesis using kept by (rule weights_kept_same)
  next
    case loop
    have "weight in_data + weight (GetEdgeData e) < node_weights st ! node"
      using loop(4) weights_kept_node[OF kept] by simp
    then have src: "loop_source es node (node_weights st ! node) src"
      unfolding loop_source_def using loop(1,2,3) in_edge out_edge
      by (intro conjI bexI[of _ "(src, in_data)"] bexI[of _ e])
         (simp_all add: GetTarget_def GetEdgeData_def)
    have len: "length (node_weights (fst s')) = length (node_weights st)"
      using loop(5) kept by (simp add: weights_kept_def)
    have "\<And>k. node_weights (fst s') ! k \<noteq> node_weights st ! k \<Longrightarrow>
        loop_source es node (node_weights st ! node) k"
    proof -
      fix k assume diff: "node_weights (fst s') ! k \<noteq> node_weights st ! k"
      show "loop_source es node (node_weights st ! node) k"
      proof (cases "k = src")
        case True
        then show ?thesis using src by simp
      next
        case False
        then have "node_weights (fst s') ! k = node_weights (fst s) ! k"
          using loop(5) by simp
        then show ?thesis using diff kept by (simp add: weights_kept_def)
      qed
    qed
    then show ?thesis using len by (simp add: weights_kept_def)
  qed
qed

lemma first_scan_weights_kept:
  assumes run: "for_each (first_scan_step sim node src in_data) outs s = Inr s'"
    and kept: "weights_kept es node st (fst s)"
    and in_edge: "(src, in_data) \<in> set es" "backward in_data"
    and outs: "set outs \<subseteq> set es"
  shows "weights_kept es node st (fst s')"
proof (rule for_each_invariant[where I = "\<lambda>t. weights_kept es node st (fst t)", OF _ kept run])
  fix x t t'
  assume "x \<in> set outs" "weights_kept es node st (fst t)"
    "first_scan_step sim node src in_data x t = Inr t'"
  then show "weights_kept es node st (fst t')"
    using first_scan_step_weights_kept[of sim node src in_data x t t' es st] in_edge outs by blast
qed

lemma in_edge_step_weights_kept:
  assumes step: "in_edge_step Run sim node e st1 = Inr st'"
    and kept: "weights_kept es node st st1"
    and e: "e \<in> set es"
    and graph: "GetAdjacentEdgeRange (graph st1) node = es"
  shows "weights_kept es node st st'"
  using step
proof (cases rule: in_edge_step_Inr)
  case self
  then show ?thesis using kept by simp
next
  case closed
  then show ?thesis using kept count_deleted_node_weights weights_kept_same by blast
next
  case (search st2 st3 mw nt)
  have g2: "graph st2 = graph st1" using count_deleted_frame[OF search(3)] by (simp add: same_frame_def)
  have k2: "weights_kept es node st st2"
    using kept count_deleted_node_weights[OF search(3)] weights_kept_same by blast
  have "weights_kept es node st (fst (st3, mw, nt))"
  proof (rule first_scan_weights_kept[OF search(4)])
    show "weights_kept es node st (fst (start_search (GetTarget e) st2, 0::int, 0::nat))"
      using k2 by (simp add: weights_kept_same)
    show "(GetTarget e, GetEdgeData e) \<in> set es" using e by (simp add: GetTarget_def GetEdgeData_def)
    show "backward (GetEdgeData e)" by (rule search(2))
    show "set (GetAdjacentEdgeRange (graph st2) node) \<subseteq> set es" using g2 graph by simp
  qed
  then have "weights_kept es node st st3" by simp
  moreover have "node_weights st' = node_weights st3"
    using second_scan_node_weights[OF search(5)] by simp
  ultimately show ?thesis using weights_kept_same by blast
qed

lemma in_edges_weights_kept:
  assumes run: "for_each (in_edge_step Run sim node) ins st = Inr st'"
    and ins: "set ins \<subseteq> set es"
    and graph: "GetAdjacentEdgeRange (graph st) node = es"
  shows "weights_kept es node st st'"
proof -
  have "weights_kept es node st st' \<and> graph st' = graph st"
  proof (rule for_each_invariant[where
        I = "\<lambda>t. weights_kept es node st t \<and> graph t = graph st", OF _ _ run])
    fix x t t'
    assume x: "x \<in> set ins" and inv: "weights_kept es node st t \<and> graph t = graph st"
      and step: "in_edge_step Run sim node x t = Inr t'"
    have "weights_kept es node st t'"
      using in_edge_step_weights_kept[OF step, of es st] inv x ins graph by auto
    moreover have "graph t' = graph st"
      using in_edge_step_frame[OF step] inv by (simp add: same_frame_def)
    ultimately show "weights_kept es node st t' \<and> graph t' = graph st" by simp
  qed simp
  then show ?thesis by simp
qed

subsection \<open>The targets of a search\<close>

lemma heap_node_goal [simp]: "heap_node (goal t) = t"
  by (simp add: goal_def)

lemma Max_insert_max:
  fixes a b :: int
  shows "finite S \<Longrightarrow> Max (insert (max a b) S) = Max (insert a (insert b S))"
  by (cases "S = {}") (simp_all add: max.assoc)

text \<open>One step of the first scan, as far as the search object and the two counters go.\<close>

lemma first_scan_step_goals:
  assumes "first_scan_step sim node src in_data e (st, mw, nt) = Inr (st', mw', nt')"
  shows "(if forward (GetEdgeData e) \<and> GetTarget e \<noteq> node \<and> GetTarget e \<noteq> src
          then mw' = max mw (weight in_data + weight (GetEdgeData e)) \<and>
               (if GetTarget e \<in> heap_node ` set (heap (dijkstra (thread_data st)))
                then dijkstra (thread_data st') = dijkstra (thread_data st) \<and> nt' = nt
                else dijkstra (thread_data st') =
                       (dijkstra (thread_data st))\<lparr>heap := heap (dijkstra (thread_data st)) @
                          [goal (GetTarget e)]\<rparr> \<and> nt' = nt + 1)
          else mw' = mw \<and> nt' = nt \<and> dijkstra (thread_data st') = dijkstra (thread_data st))"
  using assms
  by (auto simp: first_scan_step_def Let_def count_shortcuts_def Insert_def WasInserted_def
        goal_def split: if_splits sum.splits option.splits)

lemma first_scan_goals:
  assumes "for_each (first_scan_step sim node src in_data) es (st, mw, nt) = Inr (st', mw', nt')"
  shows "\<exists>ts. heap (dijkstra (thread_data st')) = heap (dijkstra (thread_data st)) @ map goal ts \<and>
           capacity (dijkstra (thread_data st')) = capacity (dijkstra (thread_data st)) \<and>
           distinct ts \<and>
           set ts = GetTarget ` set (candidates node src es)
                      - heap_node ` set (heap (dijkstra (thread_data st))) \<and>
           nt' = nt + length ts \<and>
           mw' = Max (insert mw ((\<lambda>e. weight in_data + weight (GetEdgeData e)) `
                                    set (candidates node src es)))"
  using assms
proof (induction es arbitrary: st mw nt)
  case Nil
  then show ?case by (simp add: candidates_def)
next
  case (Cons e es)
  let ?pw = "\<lambda>e. weight in_data + weight (GetEdgeData e)"
  let ?H = "heap_node ` set (heap (dijkstra (thread_data st)))"
  from Cons.prems obtain s1 where
    step: "first_scan_step sim node src in_data e (st, mw, nt) = Inr s1" and
    rest: "for_each (first_scan_step sim node src in_data) es s1 = Inr (st', mw', nt')"
    by (auto split: sum.splits)
  obtain st1 mw1 nt1 where s1: "s1 = (st1, mw1, nt1)" by (cases s1) auto
  note one = first_scan_step_goals[OF step[unfolded s1]]
  from Cons.IH[OF rest[unfolded s1]] obtain ts where
    ih: "heap (dijkstra (thread_data st')) = heap (dijkstra (thread_data st1)) @ map goal ts"
      "capacity (dijkstra (thread_data st')) = capacity (dijkstra (thread_data st1))"
      "distinct ts"
      "set ts = GetTarget ` set (candidates node src es)
                  - heap_node ` set (heap (dijkstra (thread_data st1)))"
      "nt' = nt1 + length ts"
      "mw' = Max (insert mw1 (?pw ` set (candidates node src es)))"
    by blast
  have fin: "finite (?pw ` set (candidates node src es))" by simp
  show ?case
  proof (cases "forward (GetEdgeData e) \<and> GetTarget e \<noteq> node \<and> GetTarget e \<noteq> src")
    case False
    then have same: "mw1 = mw" "nt1 = nt" "dijkstra (thread_data st1) = dijkstra (thread_data st)"
      using one by simp_all
    have cand: "candidates node src (e # es) = candidates node src es"
      using False by (auto simp: candidates_def)
    show ?thesis using ih same cand by auto
  next
    case True
    then have mw1: "mw1 = max mw (?pw e)" using one by simp
    have cand: "candidates node src (e # es) = e # candidates node src es"
      using True by (simp add: candidates_def)
    have max: "mw' = Max (insert mw (?pw ` set (candidates node src (e # es))))"
    proof -
      have "Max (insert (max mw (?pw e)) (?pw ` set (candidates node src es))) =
            Max (insert mw (insert (?pw e) (?pw ` set (candidates node src es))))"
        using fin by (rule Max_insert_max)
      then show ?thesis using ih(6) mw1 cand by simp
    qed
    show ?thesis
    proof (cases "GetTarget e \<in> ?H")
      case inserted: True
      then have same: "nt1 = nt" "dijkstra (thread_data st1) = dijkstra (thread_data st)"
        using one True by simp_all
      have "set ts = GetTarget ` set (candidates node src (e # es)) - ?H"
        using ih(4) same cand inserted by auto
      then show ?thesis using ih(1,2,3,5) same max by auto
    next
      case fresh: False
      then have new: "nt1 = nt + 1"
        "dijkstra (thread_data st1) = (dijkstra (thread_data st))\<lparr>heap :=
           heap (dijkstra (thread_data st)) @ [goal (GetTarget e)]\<rparr>"
        using one True by simp_all
      have H1: "heap_node ` set (heap (dijkstra (thread_data st1))) = insert (GetTarget e) ?H"
        using new(2) by simp
      have notin: "GetTarget e \<notin> set ts" using ih(4) H1 by simp
      have "heap (dijkstra (thread_data st')) =
          heap (dijkstra (thread_data st)) @ map goal (GetTarget e # ts)"
        using ih(1) new(2) by simp
      moreover have "capacity (dijkstra (thread_data st')) = capacity (dijkstra (thread_data st))"
        using ih(2) new(2) by simp
      moreover have "distinct (GetTarget e # ts)" using ih(3) notin by simp
      moreover have "set (GetTarget e # ts) =
          GetTarget ` set (candidates node src (e # es)) - ?H"
        using ih(4) H1 cand fresh by auto
      moreover have "nt' = nt + length (GetTarget e # ts)" using ih(5) new(1) by simp
      ultimately show ?thesis using max by blast
    qed
  qed
qed

lemma count_shortcuts_dijkstra:
  "count_shortcuts in_data out_data st = Inr st' \<Longrightarrow>
     dijkstra (thread_data st') = dijkstra (thread_data st)"
  by (auto simp: count_shortcuts_def split: option.splits)

lemma second_scan_step_dijkstra:
  "second_scan_step sim node src in_data e st = Inr st' \<Longrightarrow>
     dijkstra (thread_data st') = dijkstra (thread_data st)"
  by (auto simp: second_scan_step_def Let_def count_shortcuts_def
           split: if_splits option.splits)

lemma second_scan_dijkstra:
  assumes "for_each (second_scan_step sim node src in_data) es st = Inr st'"
  shows "dijkstra (thread_data st') = dijkstra (thread_data st)"
  by (rule for_each_invariant[where
        I = "\<lambda>t. dijkstra (thread_data t) = dijkstra (thread_data st)", OF _ _ assms])
     (auto dest: second_scan_step_dijkstra)

lemma candidates_targets:
  "GetTarget ` set (candidates node src es) - {src} = GetTarget ` set (candidates node src es)"
  by (auto simp: candidates_def)

text \<open>The search of one incoming edge: what it is called on and with.\<close>

lemma in_edge_step_search:
  assumes "in_edge_step Run sim node e st = Inr st'" "GetTarget e \<noteq> node" "backward (GetEdgeData e)"
  shows "\<exists>ts call. searches st' = searches st @ [call] \<and>
     heap (called_on call) =
       \<lparr>heap_node = GetTarget e, heap_key = 0, heap_data = \<lparr>hop = 0, is_target = False\<rparr>\<rparr>
         # map goal ts \<and>
     distinct ts \<and>
     set ts = GetTarget ` set (candidates node (GetTarget e) (GetAdjacentEdgeRange (graph st) node)) \<and>
     number_of_targets call = length ts \<and>
     node_limit call = search_space_size sim \<and>
     weight_limit call =
       Max (insert 0 ((\<lambda>out. weight (GetEdgeData e) + weight (GetEdgeData out)) `
              set (candidates node (GetTarget e) (GetAdjacentEdgeRange (graph st) node)))) \<and>
     forbidden_node call = node \<and>
     dijkstra (thread_data st') =
       Run (number_of_targets call) (node_limit call) (weight_limit call) node (graph st)
         (called_on call)"
  using assms(1)
proof (cases rule: in_edge_step_Inr)
  case self
  then show ?thesis using assms(2) by simp
next
  case closed
  then show ?thesis using assms(3) by simp
next
  case (search st1 st3 mw nt)
  let ?src = "GetTarget e"
  let ?es = "GetAdjacentEdgeRange (graph st) node"
  let ?call = "\<lparr>number_of_targets = nt, node_limit = search_space_size sim, weight_limit = mw,
      forbidden_node = node, called_on = dijkstra (thread_data st3)\<rparr>"
  have g1: "graph st1 = graph st"
    using count_deleted_frame[OF search(3)] by (simp add: same_frame_def)
  have g3: "graph st3 = graph st"
    using first_scan_frame[OF search(4)] g1 by (simp add: same_frame_def)
  have log1: "searches st1 = searches st" using search(3) by (rule count_deleted_searches)
  have log3: "searches st3 = searches st1" using first_scan_searches[OF search(4)] by simp
  have log: "searches st' = searches st @ [?call]"
    using second_scan_searches[OF search(5)] log1 log3 by (simp add: run_search_def)
  have start: "heap (dijkstra (thread_data (start_search ?src st1))) =
      [\<lparr>heap_node = ?src, heap_key = 0, heap_data = \<lparr>hop = 0, is_target = False\<rparr>\<rparr>]"
    by (simp add: start_search_def Insert_def Clear_def)
  from first_scan_goals[OF search(4)] obtain ts where
    ts: "heap (dijkstra (thread_data st3)) =
          heap (dijkstra (thread_data (start_search ?src st1))) @ map goal ts"
      "distinct ts"
      "set ts = GetTarget ` set (candidates node ?src (GetAdjacentEdgeRange (graph st1) node))
                  - heap_node ` set (heap (dijkstra (thread_data (start_search ?src st1))))"
      "nt = 0 + length ts"
      "mw = Max (insert 0 ((\<lambda>out. weight (GetEdgeData e) + weight (GetEdgeData out)) `
                set (candidates node ?src (GetAdjacentEdgeRange (graph st1) node))))"
    by blast
  have set_ts: "set ts = GetTarget ` set (candidates node ?src ?es)"
    using ts(3) start g1 candidates_targets[of node ?src ?es] by simp
  have after: "dijkstra (thread_data st') = Run nt (search_space_size sim) mw node (graph st)
      (dijkstra (thread_data st3))"
    using second_scan_dijkstra[OF search(5)] g3 by (simp add: run_search_def)
  have "searches st' = searches st @ [?call] \<and>
     heap (called_on ?call) =
       \<lparr>heap_node = ?src, heap_key = 0, heap_data = \<lparr>hop = 0, is_target = False\<rparr>\<rparr> # map goal ts \<and>
     distinct ts \<and> set ts = GetTarget ` set (candidates node ?src ?es) \<and>
     number_of_targets ?call = length ts \<and>
     node_limit ?call = search_space_size sim \<and>
     weight_limit ?call =
       Max (insert 0 ((\<lambda>out. weight (GetEdgeData e) + weight (GetEdgeData out)) `
              set (candidates node ?src ?es))) \<and>
     forbidden_node ?call = node \<and>
     dijkstra (thread_data st') =
       Run (number_of_targets ?call) (node_limit ?call) (weight_limit ?call) node (graph st)
         (called_on ?call)"
    using log ts(1,2,4,5) start set_ts g1 after by simp
  then show ?thesis by blast
qed

subsection \<open>The shortcuts of one incoming edge\<close>

lemma insert_shortcuts_pair:
  "insert_shortcuts node src tgt in_data out_data edges =
     edges @ shortcut_pair node src tgt in_data out_data"
  by (simp add: insert_shortcuts_def shortcut_pair_def emplace_edge_def Let_def)

lemma second_scan_step_contraction:
  assumes "second_scan_step False node src in_data e st = Inr st'"
  shows "inserted_edges (thread_data st') = inserted_edges (thread_data st) @
     (if needs_shortcut node in_data (dijkstra (thread_data st)) e
      then shortcut_pair node src (GetTarget e) in_data (GetEdgeData e) else [])"
  using assms
  by (auto simp: second_scan_step_def Let_def needs_shortcut_def insert_shortcuts_pair
           split: if_splits option.splits)

lemma second_scan_contraction:
  assumes "for_each (second_scan_step False node src in_data) es st = Inr st'"
  shows "inserted_edges (thread_data st') = inserted_edges (thread_data st) @
     concat (map (\<lambda>e. if needs_shortcut node in_data (dijkstra (thread_data st)) e
                        then shortcut_pair node src (GetTarget e) in_data (GetEdgeData e)
                        else []) es)"
  using assms
proof (induction es arbitrary: st)
  case Nil
  then show ?case by simp
next
  case (Cons e es)
  from Cons.prems obtain st1 where
    step: "second_scan_step False node src in_data e st = Inr st1" and
    rest: "for_each (second_scan_step False node src in_data) es st1 = Inr st'"
    by (auto split: sum.splits)
  have d: "dijkstra (thread_data st1) = dijkstra (thread_data st)"
    using step by (rule second_scan_step_dijkstra)
  show ?case
    using Cons.IH[OF rest] second_scan_step_contraction[OF step] d by simp
qed

text \<open>In real mode the first scan appends loop shortcuts only: from the source to itself.\<close>

lemma first_scan_step_contraction:
  assumes "first_scan_step False node src in_data e s = Inr s'"
  shows "\<exists>loops. inserted_edges (thread_data (fst s')) =
                    inserted_edges (thread_data (fst s)) @ loops \<and>
                  (\<forall>l \<in> set loops. source l = src \<and> target l = src)"
  using assms
  by (auto simp: first_scan_step_def Let_def insert_shortcuts_pair shortcut_pair_def Insert_def
           split: prod.splits if_splits)

lemma first_scan_contraction:
  assumes "for_each (first_scan_step False node src in_data) es s = Inr s'"
  shows "\<exists>loops. inserted_edges (thread_data (fst s')) =
                    inserted_edges (thread_data (fst s)) @ loops \<and>
                  (\<forall>l \<in> set loops. source l = src \<and> target l = src)"
proof (rule for_each_invariant[where
      I = "\<lambda>t. \<exists>loops. inserted_edges (thread_data (fst t)) =
                    inserted_edges (thread_data (fst s)) @ loops \<and>
                  (\<forall>l \<in> set loops. source l = src \<and> target l = src)", OF _ _ assms])
  fix x t t'
  assume inv: "\<exists>loops. inserted_edges (thread_data (fst t)) =
                    inserted_edges (thread_data (fst s)) @ loops \<and>
                  (\<forall>l \<in> set loops. source l = src \<and> target l = src)"
    and step: "first_scan_step False node src in_data x t = Inr t'"
  from inv obtain l1 where l1: "inserted_edges (thread_data (fst t)) =
      inserted_edges (thread_data (fst s)) @ l1" "\<forall>l \<in> set l1. source l = src \<and> target l = src"
    by blast
  from first_scan_step_contraction[OF step] obtain l2 where
    l2: "inserted_edges (thread_data (fst t')) = inserted_edges (thread_data (fst t)) @ l2"
      "\<forall>l \<in> set l2. source l = src \<and> target l = src"
    by blast
  have "inserted_edges (thread_data (fst t')) = inserted_edges (thread_data (fst s)) @ (l1 @ l2)"
    using l1(1) l2(1) by simp
  moreover have "\<forall>l \<in> set (l1 @ l2). source l = src \<and> target l = src"
    using l1(2) l2(2) by auto
  ultimately show "\<exists>loops. inserted_edges (thread_data (fst t')) =
                    inserted_edges (thread_data (fst s)) @ loops \<and>
                  (\<forall>l \<in> set loops. source l = src \<and> target l = src)"
    by blast
qed simp

lemma in_edge_step_contraction:
  assumes "in_edge_step Run False node e st = Inr st'"
    and "GetTarget e \<noteq> node" and "backward (GetEdgeData e)"
  shows "\<exists>loops. (\<forall>l \<in> set loops. source l = GetTarget e \<and> target l = GetTarget e) \<and>
     inserted_edges (thread_data st') = inserted_edges (thread_data st) @ loops @
       concat (map (\<lambda>out. if needs_shortcut node (GetEdgeData e) (dijkstra (thread_data st')) out
                          then shortcut_pair node (GetTarget e) (GetTarget out) (GetEdgeData e)
                                 (GetEdgeData out)
                          else []) (GetAdjacentEdgeRange (graph st) node))"
  using assms(1)
proof (cases rule: in_edge_step_Inr)
  case self
  then show ?thesis using assms(2) by simp
next
  case closed
  then show ?thesis using assms(3) by simp
next
  case (search st1 st3 mw nt)
  let ?st4 = "run_search Run nt (search_space_size False) mw node st3"
  have g1: "graph st1 = graph st"
    using count_deleted_frame[OF search(3)] by (simp add: same_frame_def)
  have g3: "graph st3 = graph st"
    using first_scan_frame[OF search(4)] g1 by (simp add: same_frame_def)
  have b1: "thread_data st1 = thread_data st" using search(3) by (rule count_deleted_thread_data)
  from first_scan_contraction[OF search(4)] obtain loops where
    loops: "inserted_edges (thread_data st3) = inserted_edges (thread_data st1) @ loops"
      "\<forall>l \<in> set loops. source l = GetTarget e \<and> target l = GetTarget e"
    by auto
  have d: "dijkstra (thread_data st') = dijkstra (thread_data ?st4)"
    using search(5) by (rule second_scan_dijkstra)
  have "inserted_edges (thread_data st') = inserted_edges (thread_data ?st4) @
     concat (map (\<lambda>out. if needs_shortcut node (GetEdgeData e) (dijkstra (thread_data ?st4)) out
                        then shortcut_pair node (GetTarget e) (GetTarget out) (GetEdgeData e)
                               (GetEdgeData out)
                        else []) (GetAdjacentEdgeRange (graph st3) node))"
    using search(5) by (rule second_scan_contraction)
  then have "inserted_edges (thread_data st') = inserted_edges (thread_data st) @ loops @
     concat (map (\<lambda>out. if needs_shortcut node (GetEdgeData e) (dijkstra (thread_data st')) out
                        then shortcut_pair node (GetTarget e) (GetTarget out) (GetEdgeData e)
                               (GetEdgeData out)
                        else []) (GetAdjacentEdgeRange (graph st) node))"
    using d g3 loops(1) b1 by simp
  then show ?thesis using loops(2) by blast
qed

subsection \<open>The pass over the appended edges\<close>

lemma length_merge_first: "merge_first x xs = Some ys \<Longrightarrow> length ys = length xs"
  by (induction xs arbitrary: ys) (auto split: if_splits)

lemma edge_key_merge_flags [simp]: "edge_key (merge_flags y x) = edge_key y"
  by (simp add: edge_key_def merge_flags_def)

lemma merge_into_later_list:
  assumes "iend = length edges" "other \<le> iend"
  shows "merge_into_later edges i other iend =
     (case merge_first (edges ! i) (drop other edges) of
        Some ys \<Rightarrow> (take other edges @ ys, True)
      | None \<Rightarrow> (edges, False))"
  using assms
proof (induction edges i other iend rule: merge_into_later.induct)
  case (1 edges i other iend)
  show ?case
  proof (cases "other < iend")
    case False
    then have "drop other edges = []" using "1.prems" by simp
    then show ?thesis using False by (simp add: merge_into_later.simps[of edges i other iend])
  next
    case True
    then have drop: "drop other edges = edges ! other # drop (Suc other) edges"
      using "1.prems" by (simp add: Cons_nth_drop_Suc)
    show ?thesis
    proof (cases "edge_key (edges ! other) = edge_key (edges ! i)")
      case same: True
      have "merge_into_later edges i other iend =
          (edges[other := merge_flags (edges ! other) (edges ! i)], True)"
        using True same
        by (simp add: merge_into_later.simps[of edges i other iend] edge_key_def merge_flags_def)
      moreover have "edges[other := merge_flags (edges ! other) (edges ! i)] =
          take other edges @ merge_flags (edges ! other) (edges ! i) # drop (Suc other) edges"
        using True "1.prems" by (simp add: upd_conv_take_nth_drop)
      ultimately show ?thesis using drop same by simp
    next
      case differ: False
      have rec: "merge_into_later edges i other iend = merge_into_later edges i (other + 1) iend"
        using True differ
        by (auto simp: merge_into_later.simps[of edges i other iend] edge_key_def)
      have ih: "merge_into_later edges i (other + 1) iend =
          (case merge_first (edges ! i) (drop (other + 1) edges) of
             Some ys \<Rightarrow> (take (other + 1) edges @ ys, True)
           | None \<Rightarrow> (edges, False))"
      proof -
        have step: "\<And>P. (source (edges ! other) \<noteq> source (edges ! i) \<Longrightarrow> P) \<Longrightarrow>
            (\<not> source (edges ! other) \<noteq> source (edges ! i) \<Longrightarrow>
               target (edges ! other) \<noteq> target (edges ! i) \<Longrightarrow> P) \<Longrightarrow>
            (\<not> source (edges ! other) \<noteq> source (edges ! i) \<Longrightarrow>
               \<not> target (edges ! other) \<noteq> target (edges ! i) \<Longrightarrow>
               weight (data (edges ! other)) \<noteq> weight (data (edges ! i)) \<Longrightarrow> P) \<Longrightarrow>
            (\<not> source (edges ! other) \<noteq> source (edges ! i) \<Longrightarrow>
               \<not> target (edges ! other) \<noteq> target (edges ! i) \<Longrightarrow>
               \<not> weight (data (edges ! other)) \<noteq> weight (data (edges ! i)) \<Longrightarrow>
               shortcut (data (edges ! other)) \<noteq> shortcut (data (edges ! i)) \<Longrightarrow> P) \<Longrightarrow> P"
          using differ by (auto simp: edge_key_def)
        have le: "other + 1 \<le> iend" using True by simp
        show ?thesis
          by (rule step)
             (use "1.IH" True "1.prems"(1) le in blast)+
      qed
      have "take (other + 1) edges = take other edges @ [edges ! other]"
        using True "1.prems" by (simp add: take_Suc_conv_app_nth)
      then show ?thesis using rec ih drop differ by (auto split: option.splits)
    qed
  qed
qed

lemma dedup_loop_list:
  assumes "iend = length edges" "sz \<le> i" "i \<le> iend"
  shows "take (snd (dedup_loop edges sz i iend)) (fst (dedup_loop edges sz i iend)) =
     take sz edges @ merged (drop i edges)"
  using assms
proof (induction edges sz i iend rule: dedup_loop.induct)
  case (1 edges sz i iend)
  show ?case
  proof (cases "i < iend")
    case False
    then have "drop i edges = []" using "1.prems" by simp
    then show ?thesis using False by (simp add: dedup_loop.simps[of edges sz i iend])
  next
    case True
    have drop: "drop i edges = edges ! i # drop (Suc i) edges"
      using True "1.prems" by (simp add: Cons_nth_drop_Suc)
    have inner: "merge_into_later edges i (i + 1) iend =
       (case merge_first (edges ! i) (drop (i + 1) edges) of
          Some ys \<Rightarrow> (take (i + 1) edges @ ys, True)
        | None \<Rightarrow> (edges, False))"
      using True "1.prems" by (intro merge_into_later_list) simp_all
    show ?thesis
    proof (cases "merge_first (edges ! i) (drop (i + 1) edges)")
      case None
      then have m: "merge_into_later edges i (i + 1) iend = (edges, False)"
        using inner by simp
      let ?edges = "edges[sz := edges ! i]"
      have unfold: "dedup_loop edges sz i iend = dedup_loop ?edges (sz + 1) (i + 1) iend"
        using True m by (simp add: dedup_loop.simps[of edges sz i iend])
      have "take (snd (dedup_loop ?edges (sz + 1) (i + 1) iend))
              (fst (dedup_loop ?edges (sz + 1) (i + 1) iend)) =
            take (sz + 1) ?edges @ merged (drop (i + 1) ?edges)"
        using "1.IH"(1)[OF True m[symmetric]] True "1.prems" by simp
      moreover have "take (sz + 1) ?edges = take sz edges @ [edges ! i]"
        using True "1.prems" by (simp add: take_Suc_conv_app_nth)
      moreover have "drop (i + 1) ?edges = drop (i + 1) edges"
        using "1.prems" by simp
      moreover have "merged (drop i edges) = edges ! i # merged (drop (i + 1) edges)"
        using drop None by simp
      ultimately show ?thesis using unfold by simp
    next
      case (Some ys)
      let ?edges = "take (i + 1) edges @ ys"
      have m: "merge_into_later edges i (i + 1) iend = (?edges, True)"
        using inner Some by simp
      have len: "length ys = length (drop (i + 1) edges)"
        using Some by (rule length_merge_first)
      have unfold: "dedup_loop edges sz i iend = dedup_loop ?edges sz (i + 1) iend"
        using True m by (simp add: dedup_loop.simps[of edges sz i iend])
      have "take (snd (dedup_loop ?edges sz (i + 1) iend))
              (fst (dedup_loop ?edges sz (i + 1) iend)) =
            take sz ?edges @ merged (drop (i + 1) ?edges)"
        using "1.IH"(2)[OF True m[symmetric]] True "1.prems" len by simp
      moreover have "take sz ?edges = take sz edges"
        using True "1.prems" by simp
      moreover have "drop (i + 1) ?edges = ys"
        using True "1.prems" by simp
      moreover have "merged (drop i edges) = merged ys"
        using drop Some by simp
      ultimately show ?thesis using unfold by simp
    qed
  qed
qed

subsubsection \<open>What merging keeps\<close>

lemma merge_first_None: "merge_first x xs = None \<Longrightarrow> edge_key x \<notin> edge_key ` set xs"
  by (induction xs) (auto split: if_splits)

lemma merge_first_keys:
  "merge_first x xs = Some ys \<Longrightarrow>
     map edge_key ys = map edge_key xs \<and> edge_key x \<in> edge_key ` set xs"
  by (induction xs arbitrary: ys) (auto split: if_splits)

lemma any_forward_Cons:
  "any_forward k (x # xs) \<longleftrightarrow> (edge_key x = k \<and> forward (data x)) \<or> any_forward k xs"
  by (auto simp: any_forward_def)

lemma any_backward_Cons:
  "any_backward k (x # xs) \<longleftrightarrow> (edge_key x = k \<and> backward (data x)) \<or> any_backward k xs"
  by (auto simp: any_backward_def)

lemma forward_merge_flags [simp]:
  "forward (data (merge_flags y x)) \<longleftrightarrow> forward (data y) \<or> forward (data x)"
  by (simp add: merge_flags_def)

lemma backward_merge_flags [simp]:
  "backward (data (merge_flags y x)) \<longleftrightarrow> backward (data y) \<or> backward (data x)"
  by (simp add: merge_flags_def)

lemma merge_first_forward:
  "merge_first x xs = Some ys \<Longrightarrow> any_forward k ys = any_forward k (x # xs)"
proof (induction xs arbitrary: ys)
  case Nil
  then show ?case by simp
next
  case (Cons y xs)
  show ?case
  proof (cases "edge_key y = edge_key x")
    case True
    then have "ys = merge_flags y x # xs" using Cons.prems by simp
    then show ?thesis using True by (auto simp: any_forward_Cons)
  next
    case False
    then obtain zs where zs: "merge_first x xs = Some zs" "ys = y # zs"
      using Cons.prems by auto
    from Cons.IH[OF zs(1)] show ?thesis using zs(2) by (auto simp: any_forward_Cons)
  qed
qed

lemma merge_first_backward:
  "merge_first x xs = Some ys \<Longrightarrow> any_backward k ys = any_backward k (x # xs)"
proof (induction xs arbitrary: ys)
  case Nil
  then show ?case by simp
next
  case (Cons y xs)
  show ?case
  proof (cases "edge_key y = edge_key x")
    case True
    then have "ys = merge_flags y x # xs" using Cons.prems by simp
    then show ?thesis using True by (auto simp: any_backward_Cons)
  next
    case False
    then obtain zs where zs: "merge_first x xs = Some zs" "ys = y # zs"
      using Cons.prems by auto
    from Cons.IH[OF zs(1)] show ?thesis using zs(2) by (auto simp: any_backward_Cons)
  qed
qed

lemma merged_keys: "edge_key ` set (merged xs) = edge_key ` set xs"
proof (induction xs rule: merged.induct)
  case 1
  then show ?case by simp
next
  case (2 x xs)
  show ?case
  proof (cases "merge_first x xs")
    case None
    then show ?thesis using 2 by simp
  next
    case (Some ys)
    from merge_first_keys[OF Some] have "edge_key ` set ys = edge_key ` set xs"
      "edge_key x \<in> edge_key ` set xs"
      by (metis set_map)+
    then show ?thesis using 2 Some by auto
  qed
qed

lemma merged_distinct: "distinct (map edge_key (merged xs))"
proof (induction xs rule: merged.induct)
  case 1
  then show ?case by simp
next
  case (2 x xs)
  show ?case
  proof (cases "merge_first x xs")
    case None
    then have "edge_key x \<notin> edge_key ` set (merged xs)"
      using merge_first_None merged_keys by blast
    then show ?thesis using 2 None by simp
  next
    case (Some ys)
    then show ?thesis using 2 by simp
  qed
qed

lemma merged_forward: "any_forward k (merged xs) = any_forward k xs"
proof (induction xs rule: merged.induct)
  case 1
  then show ?case by simp
next
  case (2 x xs)
  show ?case
  proof (cases "merge_first x xs")
    case None
    then show ?thesis using 2 by (simp add: any_forward_Cons)
  next
    case (Some ys)
    then show ?thesis using 2 merge_first_forward[OF Some] by simp
  qed
qed

lemma merged_backward: "any_backward k (merged xs) = any_backward k xs"
proof (induction xs rule: merged.induct)
  case 1
  then show ?case by simp
next
  case (2 x xs)
  show ?case
  proof (cases "merge_first x xs")
    case None
    then show ?thesis using 2 by (simp add: any_backward_Cons)
  next
    case (Some ys)
    then show ?thesis using 2 merge_first_backward[OF Some] by simp
  qed
qed

lemma distinct_keys_forward:
  assumes "distinct (map edge_key xs)" "e \<in> set xs"
  shows "any_forward (edge_key e) xs = forward (data e)"
proof -
  have "\<And>r. r \<in> set xs \<Longrightarrow> edge_key r = edge_key e \<Longrightarrow> r = e"
    using assms by (meson distinct_map inj_onD)
  then show ?thesis using assms(2) by (auto simp: any_forward_def)
qed

lemma distinct_keys_backward:
  assumes "distinct (map edge_key xs)" "e \<in> set xs"
  shows "any_backward (edge_key e) xs = backward (data e)"
proof -
  have "\<And>r. r \<in> set xs \<Longrightarrow> edge_key r = edge_key e \<Longrightarrow> r = e"
    using assms by (meson distinct_map inj_onD)
  then show ?thesis using assms(2) by (auto simp: any_backward_def)
qed

lemma merged_flags:
  assumes "e \<in> set (merged xs)"
  shows "forward (data e) = any_forward (edge_key e) xs"
    and "backward (data e) = any_backward (edge_key e) xs"
  using distinct_keys_forward[OF merged_distinct assms] merged_forward[of "edge_key e" xs]
    distinct_keys_backward[OF merged_distinct assms] merged_backward[of "edge_key e" xs]
  by simp_all

lemma in_edge_step_appends:
  assumes "in_edge_step Run False node e st = Inr st'"
  shows "\<exists>new. inserted_edges (thread_data st') = inserted_edges (thread_data st) @ new"
  using assms
proof (cases rule: in_edge_step_Inr)
  case self
  then show ?thesis by simp
next
  case closed
  then show ?thesis by (simp add: count_deleted_thread_data)
next
  case (search st1 st3 mw nt)
  then show ?thesis using in_edge_step_contraction[OF assms] by blast
qed

lemma in_edges_appends:
  assumes "for_each (in_edge_step Run False node) es st = Inr st'"
  shows "\<exists>raw. inserted_edges (thread_data st') = inserted_edges (thread_data st) @ raw"
proof (rule for_each_invariant[where
      I = "\<lambda>t. \<exists>raw. inserted_edges (thread_data t) = inserted_edges (thread_data st) @ raw",
      OF _ _ assms])
  fix x t t'
  assume "\<exists>raw. inserted_edges (thread_data t) = inserted_edges (thread_data st) @ raw"
    and "in_edge_step Run False node x t = Inr t'"
  then show "\<exists>raw. inserted_edges (thread_data t') = inserted_edges (thread_data st) @ raw"
    using in_edge_step_appends[of Run node x t t'] by (metis append.assoc)
qed simp

subsection \<open>The model on the example inputs\<close>

lemmas model_defs =
  ContractNode_def in_edge_step_def first_scan_step_def second_scan_step_def
  count_deleted_def start_search_def run_search_def count_shortcuts_def insert_shortcuts_def
  emplace_edge_def GetKey_def WasInserted_def Insert_def Clear_def GetTarget_def GetEdgeData_def
  GetAdjacentEdgeRange_def INVALID_EDGE_WEIGHT_def SIMULATION_SEARCH_SPACE_SIZE_def
  FULL_SEARCH_SPACE_SIZE_def ContractorThreadData_init_def ContractorDijkstra_init_def
  ContractionStats_init_def

lemmas example_defs =
  abc_state_def abc_graph_def abc_search_def abc_simulated_def abc_contracted_def
  loop_state_def loop_graph_def loop_search_def loop_simulated_def loop_edges_done_def
  two_way_state_def two_way_graph_def two_way_searches_def two_way_edges_done_def
  two_way_contracted_def parallel_state_def parallel_graph_def parallel_edge_done_def
  edge_data_def shortcut_data_def source_entry_def target_entry_def settle_def no_search_def

lemma abc_simulation:
  "ContractNode (settle [(2, 3)]) True 1 abc_state = Inr (True, abc_simulated)"
  by (simp add: model_defs example_defs)

lemma abc_first_edge:
  "in_edge_step (settle [(2, 3)]) False 1 (0, edge_data 1 False True) abc_state
     = Inr abc_contracted"
  by (simp add: model_defs example_defs)


lemma loop_simulation:
  "ContractNode no_search True 0 loop_state = Inr (True, loop_simulated)"
  by (simp add: model_defs example_defs)

lemma loop_edges:
  "for_each (in_edge_step no_search False 0) (GetAdjacentEdgeRange (graph loop_state) 0)
     loop_state = Inr loop_edges_done"
  by (simp add: model_defs example_defs)

lemma two_way_edges:
  "for_each (in_edge_step no_search False 1) (GetAdjacentEdgeRange (graph two_way_state) 1)
     two_way_state = Inr two_way_edges_done"
  by (simp add: model_defs example_defs)

lemma two_way_contraction:
  "ContractNode no_search False 1 two_way_state = Inr (True, two_way_contracted)"
  by (simp add: model_defs example_defs dedup_loop.simps merge_into_later.simps)

lemma parallel_first_edge:
  "in_edge_step no_search False 1 (0, edge_data 1 False True) parallel_state
     = Inr parallel_edge_done"
  by (simp add: model_defs example_defs)

text \<open>
  The loop branch of the first scan in real mode, for any state in which both node
  weights exist: the path weight is compared with the weight of the contracted
  node, and the weight of the source is overwritten.
\<close>

lemma loop_branch_contraction:
  assumes "forward (GetEdgeData e)" "GetTarget e = src" "src \<noteq> node"
    and "node < length (node_weights st)" "src < length (node_weights st)"
  shows "first_scan_step False node src in_data e (st, mw, nt) =
     Inr (if weight in_data + weight (GetEdgeData e) < node_weights st ! node
          then st\<lparr>node_weights := (node_weights st)[src := weight in_data + weight (GetEdgeData e)],
                  thread_data := (thread_data st)\<lparr>inserted_edges :=
                    inserted_edges (thread_data st) @
                      shortcut_pair node src src in_data (GetEdgeData e)\<rparr>\<rparr>
          else st, mw, nt)"
  using assms by (simp add: first_scan_step_def Let_def insert_shortcuts_pair)

lemma loop_branch_simulation:
  assumes "forward (GetEdgeData e)" "GetTarget e = src" "src \<noteq> node"
    and "node < length (node_weights st)" "src < length (node_weights st)"
    and "stats st = Some s"
  shows "first_scan_step True node src in_data e (st, mw, nt) =
     Inr (if weight in_data + weight (GetEdgeData e) < node_weights st ! node
          then st\<lparr>node_weights :=
                    (node_weights st)[src := weight in_data + weight (GetEdgeData e) + 1],
                  stats := Some (s\<lparr>edges_added_count := edges_added_count s + 2,
                    original_edges_added_count := original_edges_added_count s +
                      2 * (int (originalEdges (GetEdgeData e)) + int (originalEdges in_data))\<rparr>)\<rparr>
          else st, mw, nt)"
  using assms by (simp add: first_scan_step_def Let_def count_shortcuts_def)

section \<open>The claims\<close>



text \<open>
  C2. The loop branch at the input \<open>loop_state\<close>, node 0 contracted: the path from
  node 1 through node 0 back to node 1 weighs 2, the weight of the source (node 1)
  is 1, the weight of the contracted node is 10. The claim compares the path weight
  with the weight of the source, so no loop would be recorded. The model records
  it: the comparison of the source is with \<open>node_weights[node]\<close>. In real mode the
  two records from node 1 to node 1 are appended and the weight of node 1 is
  raised from 1 to 2; in simulation mode two shortcuts are counted and the weight
  of node 1 is set to 3.
\<close>

theorem loop_compared_with_contracted_node:
  "node_weights loop_state ! 1 = 1 \<and> node_weights loop_state ! 0 = 10 \<and>
   \<not> (weight (edge_data 1 True True) + weight (edge_data 1 True True)
        < node_weights loop_state ! 1) \<and>
   for_each (in_edge_step no_search False 0) (GetAdjacentEdgeRange (graph loop_state) 0)
     loop_state = Inr loop_edges_done \<and>
   inserted_edges (thread_data loop_edges_done) =
     [\<lparr>source = 1, target = 1, data = shortcut_data 2 0 True False\<rparr>,
      \<lparr>source = 1, target = 1, data = shortcut_data 2 0 False True\<rparr>] \<and>
   node_weights loop_edges_done = [10, 2] \<and>
   ContractNode no_search True 0 loop_state = Inr (True, loop_simulated) \<and>
   node_weights loop_simulated = [10, 3] \<and>
   map_option edges_added_count (stats loop_simulated) = Some 2"
  using loop_edges loop_simulation
  by (simp add: loop_state_def loop_edges_done_def loop_simulated_def edge_data_def)

text \<open>
  C3. Real mode, ContractNode returns. Let \<open>raw\<close> be the records the loops over the
  edges appended to the buffer and \<open>new\<close> the records the call leaves after the old
  content of the buffer. No two records of \<open>new\<close> have the same (source, target,
  weight, shortcut) tuple; the tuples of \<open>new\<close> are the tuples of \<open>raw\<close>; and the
  forward flag of a record of \<open>new\<close> is the disjunction of the forward flags of the
  records of \<open>raw\<close> with its tuple, and so for the backward flag.
\<close>

theorem duplicates_merged:
  assumes "ContractNode Run False node st = Inr (b, st')"
  shows "\<exists>st1 raw new.
     for_each (in_edge_step Run False node) (GetAdjacentEdgeRange (graph st) node) st = Inr st1 \<and>
     inserted_edges (thread_data st1) = inserted_edges (thread_data st) @ raw \<and>
     inserted_edges (thread_data st') = inserted_edges (thread_data st) @ new \<and>
     distinct (map edge_key new) \<and>
     set (map edge_key new) = set (map edge_key raw) \<and>
     (\<forall>e \<in> set new.
        (forward (data e) \<longleftrightarrow> (\<exists>r \<in> set raw. edge_key r = edge_key e \<and> forward (data r))) \<and>
        (backward (data e) \<longleftrightarrow> (\<exists>r \<in> set raw. edge_key r = edge_key e \<and> backward (data r))))"
proof -
  let ?old = "inserted_edges (thread_data st)"
  from assms obtain st1 where
    loop: "for_each (in_edge_step Run False node) (GetAdjacentEdgeRange (graph st) node) st = Inr st1"
    and result: "st' = st1\<lparr>thread_data := (thread_data st1)\<lparr>inserted_edges :=
        take (snd (dedup_loop (inserted_edges (thread_data st1)) (length ?old) (length ?old)
                (length (inserted_edges (thread_data st1)))))
          (fst (dedup_loop (inserted_edges (thread_data st1)) (length ?old) (length ?old)
                (length (inserted_edges (thread_data st1)))))\<rparr>\<rparr>"
    by (cases rule: ContractNode_Inr) simp
  from in_edges_appends[OF loop] obtain raw where
    raw: "inserted_edges (thread_data st1) = ?old @ raw"
    by blast
  have "inserted_edges (thread_data st') =
      take (length ?old) (?old @ raw) @ merged (drop (length ?old) (?old @ raw))"
    unfolding result using raw
    by (simp del: take_append drop_append add: dedup_loop_list)
  then have new: "inserted_edges (thread_data st') = ?old @ merged raw" by simp
  have "distinct (map edge_key (merged raw))" by (rule merged_distinct)
  moreover have "set (map edge_key (merged raw)) = set (map edge_key raw)"
    using merged_keys[of raw] by simp
  moreover have "\<forall>e \<in> set (merged raw).
        (forward (data e) \<longleftrightarrow> (\<exists>r \<in> set raw. edge_key r = edge_key e \<and> forward (data r))) \<and>
        (backward (data e) \<longleftrightarrow> (\<exists>r \<in> set raw. edge_key r = edge_key e \<and> backward (data r)))"
    using merged_flags by (simp add: any_forward_def any_backward_def)
  ultimately show ?thesis using loop raw new by blast
qed

theorem duplicates_merged_witness:
  "ContractNode no_search False 1 two_way_state = Inr (True, two_way_contracted) \<and>
   for_each (in_edge_step no_search False 1) (GetAdjacentEdgeRange (graph two_way_state) 1)
     two_way_state = Inr two_way_edges_done \<and>
   length (inserted_edges (thread_data two_way_edges_done)) = 8 \<and>
   length (inserted_edges (thread_data two_way_contracted)) = 4 \<and>
   distinct (map edge_key (inserted_edges (thread_data two_way_contracted)))"
proof -
  have run: "ContractNode no_search False 1 two_way_state = Inr (True, two_way_contracted)"
    by (rule two_way_contraction)
  from duplicates_merged[OF run] obtain new where
    new: "inserted_edges (thread_data two_way_contracted) =
            inserted_edges (thread_data two_way_state) @ new"
    and distinct: "distinct (map edge_key new)"
    by blast
  have "inserted_edges (thread_data two_way_state) = []"
    by (simp add: two_way_state_def ContractorThreadData_init_def)
  then have "distinct (map edge_key (inserted_edges (thread_data two_way_contracted)))"
    using new distinct by simp
  then show ?thesis
    using run two_way_edges by (simp add: two_way_edges_done_def two_way_contracted_def)
qed

text \<open>
  C4, as stated: in simulation mode the only writes outside the statistics are the
  node weights of loop sources. At the input \<open>abc_state\<close> the call returns with the
  graph, the buffer and the node weights as they were, and with a different search
  object: it was cleared, seeded with the source and run.
\<close>

theorem simulation_only_statistics_counterexample:
  "ContractNode (settle [(2, 3)]) True 1 abc_state = Inr (True, abc_simulated) \<and>
   graph abc_simulated = graph abc_state \<and>
   node_weights abc_simulated = node_weights abc_state \<and>
   inserted_edges (thread_data abc_simulated) = inserted_edges (thread_data abc_state) \<and>
   heap (dijkstra (thread_data abc_state)) = [] \<and>
   heap (dijkstra (thread_data abc_simulated)) = [source_entry 0, target_entry 2 3] \<and>
   dijkstra (thread_data abc_simulated) \<noteq> dijkstra (thread_data abc_state)"
  using abc_simulation
  by (simp add: abc_state_def abc_simulated_def ContractorThreadData_init_def
        ContractorDijkstra_init_def)

text \<open>
  C4, amended. When ContractNode returns in simulation mode, the graph, the buffer
  of inserted edges and the list of neighbours are as before; the vector of node
  weights has its length, and an entry that changed belongs to a node \<open>k\<close> other
  than the contracted one that is the source of a loop: an adjacent edge to \<open>k\<close>
  open backward and one open forward weigh together less than the node weight of
  the contracted node. (The statistics and the thread's search object are written.)
\<close>

theorem simulation_writes:
  assumes "ContractNode Run True node st = Inr (b, st')"
  shows "graph st' = graph st \<and>
     inserted_edges (thread_data st') = inserted_edges (thread_data st) \<and>
     neighbours (thread_data st') = neighbours (thread_data st) \<and>
     length (node_weights st') = length (node_weights st) \<and>
     (\<forall>k. node_weights st' ! k \<noteq> node_weights st ! k \<longrightarrow>
        k \<noteq> node \<and>
        (\<exists>in_edge \<in> set (GetAdjacentEdgeRange (graph st) node).
         \<exists>out_edge \<in> set (GetAdjacentEdgeRange (graph st) node).
           GetTarget in_edge = k \<and> backward (GetEdgeData in_edge) \<and>
           GetTarget out_edge = k \<and> forward (GetEdgeData out_edge) \<and>
           weight (GetEdgeData in_edge) + weight (GetEdgeData out_edge) < node_weights st ! node))"
proof -
  from assms have
    loop: "for_each (in_edge_step Run True node) (GetAdjacentEdgeRange (graph st) node) st = Inr st'"
    by (cases rule: ContractNode_Inr) simp
  have frame: "same_frame st st'" using loop by (rule in_edges_frame)
  have buffer: "inserted_edges (thread_data st') = inserted_edges (thread_data st)"
    using loop by (rule in_edges_simulation_buffer)
  have "weights_kept (GetAdjacentEdgeRange (graph st) node) node st st'"
    using loop by (rule in_edges_weights_kept) simp_all
  then show ?thesis using frame buffer
    unfolding weights_kept_def loop_source_def same_frame_def by simp
qed

theorem simulation_writes_witness:
  "ContractNode no_search True 0 loop_state = Inr (True, loop_simulated) \<and>
   graph loop_simulated = graph loop_state \<and>
   inserted_edges (thread_data loop_simulated) = inserted_edges (thread_data loop_state) \<and>
   neighbours (thread_data loop_simulated) = neighbours (thread_data loop_state) \<and>
   length (node_weights loop_simulated) = length (node_weights loop_state) \<and>
   node_weights loop_simulated ! 1 \<noteq> node_weights loop_state ! 1 \<and>
   node_weights loop_simulated ! 0 = node_weights loop_state ! 0"
proof -
  have run: "ContractNode no_search True 0 loop_state = Inr (True, loop_simulated)"
    by (rule loop_simulation)
  have changed: "node_weights loop_simulated ! 1 \<noteq> node_weights loop_state ! 1"
    and kept: "node_weights loop_simulated ! 0 = node_weights loop_state ! 0"
    by (simp_all add: loop_simulated_def loop_state_def)
  from simulation_writes[OF run] show ?thesis using run changed kept by blast
qed

text \<open>
  C5. One incoming edge from \<open>source\<close> (other than the contracted node) that is open
  backward, in either mode. Exactly one search is run. The search object it is run
  on holds the source with key 0 and then the targets \<open>ts\<close>, each once, with the
  invalid weight and the target flag: \<open>ts\<close> has no repetition and its members are
  the other endpoints of the outgoing edges that are open forward and lead to a node
  other than the contracted node and the source. The search is called with the
  number of these targets, with the node limit of the mode, with the contracted
  node as the forbidden node and with the weight limit \<open>max_weight\<close>: the largest of
  0 (its initial value) and the sums \<open>in.weight + out.weight\<close> over these outgoing
  edges, which is the largest of these sums when there is such an edge and no sum
  is negative.
\<close>

theorem goals_registered_once:
  assumes "in_edge_step Run sim node in_edge st = Inr st'"
    and "GetTarget in_edge \<noteq> node" and "backward (GetEdgeData in_edge)"
    and "outs = filter (\<lambda>out. forward (GetEdgeData out) \<and> GetTarget out \<noteq> node \<and>
                              GetTarget out \<noteq> GetTarget in_edge)
                  (GetAdjacentEdgeRange (graph st) node)"
    and "path_weights = map (\<lambda>out. weight (GetEdgeData in_edge) + weight (GetEdgeData out)) outs"
  shows "\<exists>ts call.
     searches st' = searches st @ [call] \<and>
     heap (called_on call) =
       \<lparr>heap_node = GetTarget in_edge, heap_key = 0,
        heap_data = \<lparr>hop = 0, is_target = False\<rparr>\<rparr>
       # map (\<lambda>t. \<lparr>heap_node = t, heap_key = INVALID_EDGE_WEIGHT,
                    heap_data = \<lparr>hop = 0, is_target = True\<rparr>\<rparr>) ts \<and>
     distinct ts \<and>
     set ts = set (map GetTarget outs) \<and>
     number_of_targets call = length ts \<and>
     node_limit call = (if sim then 1000 else 2000) \<and>
     weight_limit call = Max (insert 0 (set path_weights)) \<and>
     (outs \<noteq> [] \<and> (\<forall>w \<in> set path_weights. 0 \<le> w) \<longrightarrow>
        weight_limit call = Max (set path_weights)) \<and>
     forbidden_node call = node \<and>
     dijkstra (thread_data st') =
       Run (number_of_targets call) (node_limit call) (weight_limit call) node (graph st)
         (called_on call)"
proof -
  let ?es = "GetAdjacentEdgeRange (graph st) node"
  have outs: "outs = candidates node (GetTarget in_edge) ?es"
    using assms(4) by (simp add: candidates_def)
  have weights: "set path_weights =
      (\<lambda>out. weight (GetEdgeData in_edge) + weight (GetEdgeData out)) ` set outs"
    using assms(5) by simp
  from in_edge_step_search[OF assms(1,2,3)] obtain ts call where
    found: "searches st' = searches st @ [call]"
      "heap (called_on call) =
         \<lparr>heap_node = GetTarget in_edge, heap_key = 0, heap_data = \<lparr>hop = 0, is_target = False\<rparr>\<rparr>
           # map goal ts"
      "distinct ts"
      "set ts = GetTarget ` set (candidates node (GetTarget in_edge) ?es)"
      "number_of_targets call = length ts"
      "node_limit call = search_space_size sim"
      "weight_limit call =
         Max (insert 0 ((\<lambda>out. weight (GetEdgeData in_edge) + weight (GetEdgeData out)) `
                set (candidates node (GetTarget in_edge) ?es)))"
      "forbidden_node call = node"
      "dijkstra (thread_data st') =
         Run (number_of_targets call) (node_limit call) (weight_limit call) node (graph st)
           (called_on call)"
    by blast
  have entries: "map goal ts =
      map (\<lambda>t. \<lparr>heap_node = t, heap_key = INVALID_EDGE_WEIGHT,
                  heap_data = \<lparr>hop = 0, is_target = True\<rparr>\<rparr>) ts"
    by (simp add: goal_def)
  have limit: "node_limit call = (if sim then 1000 else 2000)"
    using found(6)
    by (simp add: search_space_size_def SIMULATION_SEARCH_SPACE_SIZE_def
          FULL_SEARCH_SPACE_SIZE_def)
  have bound: "weight_limit call = Max (insert 0 (set path_weights))"
    using found(7) outs weights by simp
  have exact: "outs \<noteq> [] \<and> (\<forall>w \<in> set path_weights. 0 \<le> w) \<longrightarrow>
      weight_limit call = Max (set path_weights)"
  proof
    assume nonneg: "outs \<noteq> [] \<and> (\<forall>w \<in> set path_weights. 0 \<le> w)"
    then have ne: "set path_weights \<noteq> {}" using assms(5) by simp
    then have "Max (set path_weights) \<in> set path_weights" by simp
    then have "0 \<le> Max (set path_weights)" using nonneg by blast
    then show "weight_limit call = Max (set path_weights)"
      using bound ne by (simp add: max_def)
  qed
  have "searches st' = searches st @ [call] \<and>
     heap (called_on call) =
       \<lparr>heap_node = GetTarget in_edge, heap_key = 0,
        heap_data = \<lparr>hop = 0, is_target = False\<rparr>\<rparr>
       # map (\<lambda>t. \<lparr>heap_node = t, heap_key = INVALID_EDGE_WEIGHT,
                    heap_data = \<lparr>hop = 0, is_target = True\<rparr>\<rparr>) ts \<and>
     distinct ts \<and>
     set ts = set (map GetTarget outs) \<and>
     number_of_targets call = length ts \<and>
     node_limit call = (if sim then 1000 else 2000) \<and>
     weight_limit call = Max (insert 0 (set path_weights)) \<and>
     (outs \<noteq> [] \<and> (\<forall>w \<in> set path_weights. 0 \<le> w) \<longrightarrow>
        weight_limit call = Max (set path_weights)) \<and>
     forbidden_node call = node \<and>
     dijkstra (thread_data st') =
       Run (number_of_targets call) (node_limit call) (weight_limit call) node (graph st)
         (called_on call)"
    using found(1,2,3,4,5,8,9) entries limit bound exact outs by simp
  then show ?thesis by blast
qed

theorem goals_registered_once_witness:
  "in_edge_step no_search False 1 (0, edge_data 1 False True) parallel_state
     = Inr parallel_edge_done \<and>
   GetTarget (0, edge_data 1 False True) \<noteq> 1 \<and>
   backward (GetEdgeData (0, edge_data 1 False True)) \<and>
   map number_of_targets (searches parallel_edge_done) = [1] \<and>
   map weight_limit (searches parallel_edge_done) = [6] \<and>
   map node_limit (searches parallel_edge_done) = [2000] \<and>
   map (\<lambda>c. map heap_node (heap (called_on c))) (searches parallel_edge_done) = [[0, 2]]"
proof -
  have run: "in_edge_step no_search False 1 (0, edge_data 1 False True) parallel_state
      = Inr parallel_edge_done"
    by (rule parallel_first_edge)
  have other: "GetTarget (0, edge_data 1 False True) \<noteq> 1" by (simp add: GetTarget_def)
  have open_backward: "backward (GetEdgeData (0, edge_data 1 False True))"
    by (simp add: GetEdgeData_def edge_data_def)
  from goals_registered_once[OF run other open_backward refl refl] obtain ts call where
    call: "searches parallel_edge_done = searches parallel_state @ [call]"
    and limit: "node_limit call = (if False then 1000 else 2000)"
    by blast
  have "searches parallel_state = []" by (simp add: parallel_state_def)
  then have "map node_limit (searches parallel_edge_done) = [2000]"
    using call limit by simp
  then show ?thesis
    using run other open_backward
    by (simp add: parallel_edge_done_def source_entry_def target_entry_def)
qed



text \<open>
  C7. In simulation mode without statistics (\<open>stats = None\<close>), if the node has an
  adjacent edge whose other endpoint is not the node itself, ContractNode stops at
  \<^verbatim>\<open>BOOST_ASSERT(stats != nullptr)\<close>. With statistics, no assertion of ContractNode
  fails, in either mode.
\<close>

theorem missing_stats_assertion:
  "(stats st = None \<and> (\<exists>e \<in> set (GetAdjacentEdgeRange (graph st) node). GetTarget e \<noteq> node)
      \<longrightarrow> ContractNode Run True node st = Inl AssertionFailed) \<and>
   (stats st \<noteq> None \<longrightarrow> ContractNode Run sim node st \<noteq> Inl AssertionFailed)"
proof (intro conjI impI)
  assume "stats st = None \<and> (\<exists>e \<in> set (GetAdjacentEdgeRange (graph st) node). GetTarget e \<noteq> node)"
  then show "ContractNode Run True node st = Inl AssertionFailed"
    by (simp add: ContractNode_def in_edges_null_stats)
next
  assume "stats st \<noteq> None"
  then have "for_each (in_edge_step Run sim node) (GetAdjacentEdgeRange (graph st) node) st
      \<noteq> Inl AssertionFailed"
    by (rule in_edges_safe)
  then show "ContractNode Run sim node st \<noteq> Inl AssertionFailed"
    by (auto simp: ContractNode_def Let_def split: sum.splits prod.splits)
qed

theorem missing_stats_assertion_witness:
  "stats (abc_state\<lparr>stats := None\<rparr>) = None \<and>
   (0, edge_data 1 False True) \<in> set (GetAdjacentEdgeRange (graph (abc_state\<lparr>stats := None\<rparr>)) 1) \<and>
   GetTarget (0, edge_data 1 False True) \<noteq> 1 \<and>
   ContractNode no_search True 1 (abc_state\<lparr>stats := None\<rparr>) = Inl AssertionFailed \<and>
   stats abc_state \<noteq> None \<and>
   ContractNode no_search False 1 abc_state \<noteq> Inl AssertionFailed"
proof -
  let ?st = "abc_state\<lparr>stats := None\<rparr>"
  have null: "stats ?st = None" by simp
  have edge: "(0, edge_data 1 False True) \<in> set (GetAdjacentEdgeRange (graph ?st) 1)"
    by (simp add: abc_state_def abc_graph_def GetAdjacentEdgeRange_def)
  have other: "GetTarget (0, edge_data 1 False True) \<noteq> 1" by (simp add: GetTarget_def)
  have fails: "ContractNode no_search True 1 ?st = Inl AssertionFailed"
    using missing_stats_assertion[of ?st 1 no_search] null edge other by blast
  have given: "stats abc_state \<noteq> None" by (simp add: abc_state_def)
  have passes: "ContractNode no_search False 1 abc_state \<noteq> Inl AssertionFailed"
    using missing_stats_assertion[of abc_state 1 no_search False] given by blast
  show ?thesis using null edge other fails given passes by blast
qed

text \<open>
  C8. GetThreadData makes a worker's thread data at the worker's first call and
  gives back the same object at every later call of that worker; a call of another
  worker does not touch it. The object is always built for 4000 nodes, whatever the
  container's \<open>number_of_nodes\<close> is.
\<close>

theorem GetThreadData_lazy_fixed_capacity:
  "(data_local c worker = None \<longrightarrow>
      GetThreadData worker (c, store) =
        (length store, c\<lparr>data_local := (data_local c)(worker \<mapsto> length store)\<rparr>,
         store @ [\<lparr>dijkstra = \<lparr>capacity = 4000, heap = []\<rparr>, inserted_edges = [],
                    neighbours = []\<rparr>])) \<and>
   (data_local c worker = Some ref \<longrightarrow> GetThreadData worker (c, store) = (ref, c, store)) \<and>
   (GetThreadData worker (c, store) = (ref, cs') \<longrightarrow> GetThreadData worker cs' = (ref, cs')) \<and>
   (other \<noteq> worker \<longrightarrow>
      data_local (fst (snd (GetThreadData other (c, store)))) worker = data_local c worker) \<and>
   GetThreadData worker (c\<lparr>number_of_nodes := n\<rparr>, store) =
     (case GetThreadData worker (c, store) of
        (ref', c', store') \<Rightarrow> (ref', c'\<lparr>number_of_nodes := n\<rparr>, store'))"
  by (auto simp: GetThreadData_def make_shared_def ContractorThreadData_init_def
        ContractorDijkstra_init_def split: option.splits)

theorem GetThreadData_lazy_fixed_capacity_witness:
  "data_local (ThreadDataContainer_init 7) 0 = None \<and>
   GetThreadData 0 (ThreadDataContainer_init 7, []) =
     (0, (ThreadDataContainer_init 7)\<lparr>data_local := (data_local (ThreadDataContainer_init 7))(0 \<mapsto> 0)\<rparr>,
      [\<lparr>dijkstra = \<lparr>capacity = 4000, heap = []\<rparr>, inserted_edges = [], neighbours = []\<rparr>]) \<and>
   data_local (fst (snd (GetThreadData 0 (ThreadDataContainer_init 7, [])))) 0 = Some 0 \<and>
   GetThreadData 0 (snd (GetThreadData 0 (ThreadDataContainer_init 7, []))) =
     (0, snd (GetThreadData 0 (ThreadDataContainer_init 7, []))) \<and>
   (1::nat) \<noteq> 0 \<and>
   data_local (fst (snd (GetThreadData 1 (snd (GetThreadData 0 (ThreadDataContainer_init 7, [])))))) 0
     = Some 0"
proof -
  let ?c = "ThreadDataContainer_init 7"
  let ?c1 = "?c\<lparr>data_local := (data_local ?c)(0 \<mapsto> 0)\<rparr>"
  let ?s1 = "[\<lparr>dijkstra = \<lparr>capacity = 4000, heap = []\<rparr>, inserted_edges = [], neighbours = []\<rparr>]"
  have none: "data_local ?c 0 = None" by (simp add: ThreadDataContainer_init_def)
  have first: "GetThreadData 0 (?c, []) = (0, ?c1, ?s1)"
    using GetThreadData_lazy_fixed_capacity[of ?c 0 "[]", THEN conjunct1, THEN mp, OF none]
    by simp
  have some: "data_local ?c1 0 = Some 0" by simp
  have held: "GetThreadData 0 (?c1, ?s1) = (0, ?c1, ?s1)"
    by (rule GetThreadData_lazy_fixed_capacity[of ?c1 0 ?s1 0, THEN conjunct2, THEN conjunct1,
          THEN mp, OF some])
  have distinct_workers: "(1::nat) \<noteq> 0" by simp
  have other: "data_local (fst (snd (GetThreadData 1 (?c1, ?s1)))) 0 = Some 0"
    using GetThreadData_lazy_fixed_capacity[of ?c1 0 ?s1 _ _ 1, THEN conjunct2, THEN conjunct2,
          THEN conjunct2, THEN conjunct1, THEN mp, OF distinct_workers] some
    by (simp only:)
  show ?thesis
    unfolding first snd_conv fst_conv
    using none some held other by (intro conjI) simp_all
qed

text \<open>
  C9. ContractNode skips every adjacent edge whose other endpoint is the contracted
  node itself, in both modes: each of its three loops over the adjacent edges (the
  incoming edges, the outgoing edges before the search, the outgoing edges after it)
  does the same on the edge list and on the edge list without these edges. So such
  an edge is not counted as deleted, is not registered as a target and gives no
  shortcut.
\<close>

theorem self_loops_skipped:
  "for_each (in_edge_step Run sim node) (filter (\<lambda>e. GetTarget e \<noteq> node) es) st =
     for_each (in_edge_step Run sim node) es st \<and>
   for_each (first_scan_step sim node src in_data) (filter (\<lambda>e. GetTarget e \<noteq> node) es) s =
     for_each (first_scan_step sim node src in_data) es s \<and>
   for_each (second_scan_step sim node src in_data) (filter (\<lambda>e. GetTarget e \<noteq> node) es) st =
     for_each (second_scan_step sim node src in_data) es st"
  by (intro conjI for_each_skip)
     (simp_all add: in_edge_step_self first_scan_step_self second_scan_step_self)

theorem self_loops_skipped_witness:
  "for_each (in_edge_step no_search False 1)
     (filter (\<lambda>e. GetTarget e \<noteq> 1) [(1, edge_data 1 True True), (0, edge_data 1 False True)])
     parallel_state =
   for_each (in_edge_step no_search False 1)
     [(1, edge_data 1 True True), (0, edge_data 1 False True)] parallel_state"
  by (rule self_loops_skipped[THEN conjunct1])

text \<open>
  C10. When ContractNode returns in simulation mode (with statistics), the count of
  deleted edges has grown by the number of adjacent edges that lead to another
  node, and the count of deleted original edges by the sum of their original-edge
  counts: every such edge counts, whether it is open backward or not.
\<close>

theorem deleted_counts_all_incident_edges:
  assumes "ContractNode Run True node st = Inr (b, st')" "stats st = Some s"
  shows "\<exists>s'. stats st' = Some s' \<and>
     edges_deleted_count s' = edges_deleted_count s +
       int (length (filter (\<lambda>e. GetTarget e \<noteq> node) (GetAdjacentEdgeRange (graph st) node))) \<and>
     original_edges_deleted_count s' = original_edges_deleted_count s +
       (\<Sum>e\<leftarrow>filter (\<lambda>e. GetTarget e \<noteq> node) (GetAdjacentEdgeRange (graph st) node).
           int (originalEdges (GetEdgeData e)))"
proof -
  from assms(1) have
    loop: "for_each (in_edge_step Run True node) (GetAdjacentEdgeRange (graph st) node) st = Inr st'"
    by (cases rule: ContractNode_Inr) simp
  have "deleted_counts st = Some (edges_deleted_count s, original_edges_deleted_count s)"
    using assms(2) by (simp add: deleted_counts_def)
  from in_edges_deleted[OF loop this] show ?thesis
    by (auto simp: deleted_counts_def)
qed

theorem deleted_counts_all_incident_edges_witness:
  "ContractNode (settle [(2, 3)]) True 1 abc_state = Inr (True, abc_simulated) \<and>
   stats abc_state = Some ContractionStats_init \<and>
   GetAdjacentEdgeRange (graph abc_state) 1 =
     [(0, edge_data 1 False True), (2, edge_data 1 True False)] \<and>
   \<not> backward (GetEdgeData (2, edge_data 1 True False)) \<and>
   map_option edges_deleted_count (stats abc_simulated) = Some 2 \<and>
   map_option original_edges_deleted_count (stats abc_simulated) = Some 2"
proof -
  have given: "stats abc_state = Some ContractionStats_init" by (simp add: abc_state_def)
  have edges: "GetAdjacentEdgeRange (graph abc_state) 1 =
      [(0, edge_data 1 False True), (2, edge_data 1 True False)]"
    by (simp add: abc_state_def abc_graph_def GetAdjacentEdgeRange_def)
  have closed: "\<not> backward (GetEdgeData (2, edge_data 1 True False))"
    by (simp add: GetEdgeData_def edge_data_def)
  from deleted_counts_all_incident_edges[OF abc_simulation given] obtain s' where
    "stats abc_simulated = Some s'"
    "edges_deleted_count s' = edges_deleted_count ContractionStats_init +
       int (length (filter (\<lambda>e. GetTarget e \<noteq> 1) (GetAdjacentEdgeRange (graph abc_state) 1)))"
    "original_edges_deleted_count s' = original_edges_deleted_count ContractionStats_init +
       (\<Sum>e\<leftarrow>filter (\<lambda>e. GetTarget e \<noteq> 1) (GetAdjacentEdgeRange (graph abc_state) 1).
           int (originalEdges (GetEdgeData e)))"
    by blast
  then have "map_option edges_deleted_count (stats abc_simulated) = Some 2"
    "map_option original_edges_deleted_count (stats abc_simulated) = Some 2"
    unfolding edges
    by (simp_all add: ContractionStats_init_def GetTarget_def GetEdgeData_def edge_data_def)
  then show ?thesis using abc_simulation given edges closed by simp
qed

end
